theory Spec2Isabelle
  imports Main "HOL-Library.Sublist" "HOL-Library.AList" "HOL-Library.Char_ord"
    "HOL-Library.List_Lexorder" "HOL-Library.Product_Lexorder"
begin

section \<open>Strings as the kerning code uses them\<close>

text \<open>
  Glyph and group names are Python strings. The three string operations the kerning
  code relies on are the substring test \<^verbatim>\<open>sub in s\<close>, \<^verbatim>\<open>s.startswith(p)\<close>
  (which is \<^const>\<open>prefix\<close>) and \<^verbatim>\<open>s.replace(old, new)\<close>.
\<close>

fun str_contains :: "string \<Rightarrow> string \<Rightarrow> bool" where
  "str_contains sub [] = (sub = [])"
| "str_contains sub (c # cs) = (prefix sub (c # cs) \<or> str_contains sub cs)"

text \<open>
  \<^verbatim>\<open>str.replace\<close> scans from the left and replaces non-overlapping occurrences.
  An empty pattern matches before every character and at the end.
\<close>

fun str_replace :: "string \<Rightarrow> string \<Rightarrow> string \<Rightarrow> string" where
  "str_replace [] new s = new @ concat (map (\<lambda>c. c # new) s)"
| "str_replace (a # old) new [] = []"
| "str_replace (a # old) new (c # cs) =
     (if prefix (a # old) (c # cs)
      then new @ str_replace (a # old) new (drop (length old) cs)
      else c # str_replace (a # old) new cs)"

text \<open>Module constants of \<^verbatim>\<open>kernFeatureWriter.py\<close>.\<close>

definition group_RTL :: string where "group_RTL = ''RTL_KERNING''"
definition tag_ara :: string where "tag_ara = ''_ARA''"
definition tag_heb :: string where "tag_heb = ''_HEB''"
definition tag_RTL :: string where "tag_RTL = ''_RTL''"
definition tag_exception :: string where "tag_exception = ''EXC_''"
definition tag_ignore :: string where "tag_ignore = ''.cxt''"

section \<open>Group names\<close>

text \<open>\<^verbatim>\<open>KernProcessor._remap_group_name\<close>: public.kern style to @MMK style.\<close>

definition remap_group_name :: "string \<Rightarrow> string" where
  "remap_group_name group_name =
     (if str_contains ''public.kern1.'' group_name then
        (let stripped_name = str_replace ''public.kern1.'' '''' group_name
         in if prefix ''@MMK_L_'' stripped_name then stripped_name
            else str_replace ''public.kern1.'' ''@MMK_L_'' group_name)
      else if str_contains ''public.kern2.'' group_name then
        (let stripped_name = str_replace ''public.kern2.'' '''' group_name
         in if prefix ''@MMK_R_'' stripped_name then stripped_name
            else str_replace ''public.kern2.'' ''@MMK_R_'' group_name)
      else group_name)"

section \<open>Dictionaries, values and errors\<close>

text \<open>
  A Python \<^verbatim>\<open>dict\<close> keeps insertion order, so it is an association list with distinct
  keys: \<^const>\<open>map_of\<close> is \<^verbatim>\<open>d.get(k)\<close>, \<^const>\<open>AList.update\<close> is \<^verbatim>\<open>d[k] = v\<close> (an existing
  key keeps its place, a new one goes to the end) and \<^const>\<open>AList.delete\<close> is \<^verbatim>\<open>del d[k]\<close>.
  A kerning value is an integer in a static font and a formatted string such as
  \<^verbatim>\<open><10 20 30>\<close> in a multiple master font.
\<close>

datatype py_error = IndexError | KeyError | AttributeError | TypeError

datatype kern_value = Static int | Master string

type_synonym pair = "string \<times> string"
type_synonym kdict = "(pair \<times> kern_value) list"
type_synonym gdict = "(string \<times> string list) list"

definition bindE :: "py_error + 'a \<Rightarrow> ('a \<Rightarrow> py_error + 'b) \<Rightarrow> py_error + 'b" where
  "bindE m f = (case m of Inl e \<Rightarrow> Inl e | Inr x \<Rightarrow> f x)"

text \<open>A \<^verbatim>\<open>for\<close> loop whose body may raise, and a comprehension whose test may raise.\<close>

fun foldE :: "('a \<Rightarrow> 's \<Rightarrow> py_error + 's) \<Rightarrow> 'a list \<Rightarrow> 's \<Rightarrow> py_error + 's" where
  "foldE f [] s = Inr s"
| "foldE f (x # xs) s = bindE (f x s) (foldE f xs)"

fun filterE :: "('a \<Rightarrow> py_error + bool) \<Rightarrow> 'a list \<Rightarrow> py_error + 'a list" where
  "filterE t [] = Inr []"
| "filterE t (x # xs) =
     bindE (t x) (\<lambda>b. bindE (filterE t xs) (\<lambda>ys. Inr (if b then x # ys else ys)))"

text \<open>\<^verbatim>\<open>d[k]\<close> raises KeyError on a missing key.\<close>

definition subscript :: "('k \<times> 'v) list \<Rightarrow> 'k \<Rightarrow> py_error + 'v" where
  "subscript d k = (case map_of d k of None \<Rightarrow> Inl KeyError | Some v \<Rightarrow> Inr v)"

text \<open>Reading an instance attribute that was never assigned raises AttributeError.\<close>

definition attribute :: "'a option \<Rightarrow> py_error + 'a" where
  "attribute a = (case a of None \<Rightarrow> Inl AttributeError | Some v \<Rightarrow> Inr v)"

text \<open>\<^verbatim>\<open>sorted(set(xs))\<close>\<close>

definition sorted_set :: "'a::linorder list \<Rightarrow> 'a list" where
  "sorted_set xs = sort (remdups xs)"

section \<open>KernProcessor\<close>

record kern_processor =
  glyph_glyph :: kdict
  glyph_glyph_exceptions :: kdict
  glyph_group :: kdict
  glyph_group_exceptions :: kdict
  group_glyph_exceptions :: kdict
  group_group :: kdict
  predefined_exceptions :: kdict
  rtl_glyph_glyph :: kdict
  rtl_glyph_glyph_exceptions :: kdict
  rtl_glyph_group :: kdict
  rtl_glyph_group_exceptions :: kdict
  rtl_group_glyph_exceptions :: kdict
  rtl_group_group :: kdict
  rtl_predefined_exceptions :: kdict
  pairs_unprocessed :: "pair list"
  pairs_processed :: "pair list"
  reference_groups :: gdict
  groups :: gdict
  kerning :: kdict
  grouped_left :: "string list option"
  grouped_right :: "string list option"
  exceptionPairs :: "pair list"
  RTLexceptionPairs :: "pair list"
  group_order :: "string list option"

text \<open>
  The attributes \<^verbatim>\<open>__init__\<close> assigns before anything else; \<^verbatim>\<open>grouped_left\<close>,
  \<^verbatim>\<open>grouped_right\<close> and \<^verbatim>\<open>group_order\<close> do not exist yet.
\<close>

definition new_processor :: "gdict \<Rightarrow> gdict \<Rightarrow> kdict \<Rightarrow> kern_processor" where
  "new_processor ref_groups groups_d kerning_d =
     \<lparr> glyph_glyph = [], glyph_glyph_exceptions = [], glyph_group = [],
       glyph_group_exceptions = [], group_glyph_exceptions = [], group_group = [],
       predefined_exceptions = [],
       rtl_glyph_glyph = [], rtl_glyph_glyph_exceptions = [], rtl_glyph_group = [],
       rtl_glyph_group_exceptions = [], rtl_group_glyph_exceptions = [],
       rtl_group_group = [], rtl_predefined_exceptions = [],
       pairs_unprocessed = [], pairs_processed = [],
       reference_groups = ref_groups, groups = groups_d, kerning = kerning_d,
       grouped_left = None, grouped_right = None,
       exceptionPairs = [], RTLexceptionPairs = [], group_order = None \<rparr>"

text \<open>
  \<^verbatim>\<open>_isGroup\<close>: \<^verbatim>\<open>itemName[0]\<close> raises IndexError on the empty name;
  \<^verbatim>\<open>itemName.split('.')[0]\<close> is the text before the first dot.
\<close>

definition isGroup :: "string \<Rightarrow> py_error + bool" where
  "isGroup itemName =
     (case itemName of
        [] \<Rightarrow> Inl IndexError
      | c # _ \<Rightarrow>
          Inr (c = CHR ''@'' \<or> takeWhile (\<lambda>x. x \<noteq> CHR ''.'') itemName = ''public''))"

definition isKerningGroup :: "string \<Rightarrow> bool" where
  "isKerningGroup groupName = (prefix ''@MMK_'' groupName \<or> prefix ''public.kern'' groupName)"

definition isRTL :: "gdict \<Rightarrow> pair \<Rightarrow> bool" where
  "isRTL ref_groups pair =
     (let RTLGlyphs = (case map_of ref_groups group_RTL of Some gl \<Rightarrow> gl | None \<Rightarrow> []);
          RTLkerningTags = [tag_ara, tag_heb, tag_RTL]
      in if fst pair \<in> set RTLGlyphs \<or> snd pair \<in> set RTLGlyphs then True
         else list_ex (\<lambda>tag. str_contains tag (fst pair) \<or> str_contains tag (snd pair))
                RTLkerningTags)"

definition isRTLGroup :: "string \<Rightarrow> bool" where
  "isRTLGroup groupName = list_ex (\<lambda>tag. str_contains tag groupName) [tag_ara, tag_heb, tag_RTL]"

text \<open>
  \<^verbatim>\<open>sanitize_kerning\<close>: the set of kerned items is traversed in no particular order, but
  the outcome does not depend on it: IndexError when some item is empty, and otherwise
  \<^verbatim>\<open>bad_groups\<close> is only used as a set.
\<close>

definition sanitize_kerning :: "gdict \<Rightarrow> kdict \<Rightarrow> py_error + kdict" where
  "sanitize_kerning groups_d kerning_d =
     (let all_pairs = map fst kerning_d;
          all_kerned_items = remdups (concat (map (\<lambda>(l, r). [l, r]) all_pairs))
      in bindE (filterE isGroup all_kerned_items) (\<lambda>all_kerned_groups.
           let bad_groups = filter (\<lambda>g. g \<notin> set (map fst groups_d)) all_kerned_groups
           in Inr (filter (\<lambda>((l, r), value). l \<notin> set bad_groups \<and> r \<notin> set bad_groups)
                     kerning_d)))"

definition remap_groups :: "gdict \<Rightarrow> gdict" where
  "remap_groups groups_d =
     fold (\<lambda>(group_name, glyph_list) remapped.
             AList.update (remap_group_name group_name) glyph_list remapped) groups_d []"

definition remap_kerning :: "kdict \<Rightarrow> kdict" where
  "remap_kerning kerning_d =
     fold (\<lambda>((left, right), value) remapped.
             AList.update (remap_group_name left, remap_group_name right) value remapped)
       kerning_d []"

definition get_used_groups :: "kdict \<Rightarrow> py_error + string list" where
  "get_used_groups kerning_d =
     bindE (filterE isGroup (concat (map (\<lambda>(left, right). [left, right]) (map fst kerning_d))))
       (\<lambda>groupList. Inr (sorted_set groupList))"

text \<open>
  \<^verbatim>\<open>_getAllGroupedGlyphs\<close> without a filter list: \<^verbatim>\<open>groupFilterList\<close> is the keys of
  \<^verbatim>\<open>self.groups\<close>, so \<^verbatim>\<open>self.groups.get(left)\<close> is taken exactly when the key exists.
  Both sorted lists are returned; the caller picks its side.
\<close>

definition getAllGroupedGlyphs :: "gdict \<Rightarrow> kdict \<Rightarrow> py_error + (string list \<times> string list)" where
  "getAllGroupedGlyphs groups_d kerning_d =
     bindE (foldE (\<lambda>(left, right) (gl, gr).
                bindE (isGroup left) (\<lambda>lg.
                bindE (isGroup right) (\<lambda>rg.
                  Inr (case (if lg then map_of groups_d left else None) of
                         Some glyphs \<Rightarrow> gl @ glyphs | None \<Rightarrow> gl,
                       case (if rg then map_of groups_d right else None) of
                         Some glyphs \<Rightarrow> gr @ glyphs | None \<Rightarrow> gr))))
              (map fst kerning_d) ([], []))
       (\<lambda>(gl, gr). Inr (sorted_set gl, sorted_set gr))"

text \<open>\<^verbatim>\<open>_dissolveSingleGroups\<close>\<close>

definition dissolved_item :: "gdict \<Rightarrow> string \<Rightarrow> string" where
  "dissolved_item singleGroups item =
     hd (case map_of singleGroups item of Some glyphs \<Rightarrow> glyphs | None \<Rightarrow> [item])"

definition dissolveSingleGroups :: "gdict \<Rightarrow> kdict \<Rightarrow> gdict \<times> kdict" where
  "dissolveSingleGroups groups_d kerning_d =
     (let singleGroups =
            filter (\<lambda>(group_name, glyphs). length glyphs = 1 \<and> \<not> isRTLGroup group_name) groups_d
      in if singleGroups \<noteq> [] then
           (let dissolvedKerning =
                  fold (\<lambda>((left, right), value) dissolved.
                          AList.update (dissolved_item singleGroups left,
                                        dissolved_item singleGroups right) value dissolved)
                    kerning_d [];
                remainingGroups =
                  filter (\<lambda>(gr_name, glyphs). gr_name \<notin> set (map fst singleGroups)) groups_d
            in (remainingGroups, dissolvedKerning))
         else (groups_d, kerning_d))"

text \<open>
  \<^verbatim>\<open>_sanityCheck\<close> only prints; the value says whether the mismatch report is printed.
\<close>

definition sanityCheck :: "kern_processor \<Rightarrow> bool" where
  "sanityCheck s =
     (let num_pairs_total = length (map fst (kerning s));
          num_pairs_processed = length (pairs_processed s);
          num_pairs_unprocessed = length (pairs_unprocessed s)
      in num_pairs_total \<noteq> num_pairs_processed + num_pairs_unprocessed)"

definition explode :: "string list \<Rightarrow> string list \<Rightarrow> pair list" where
  "explode leftGlyphList rightGlyphList = List.product leftGlyphList rightGlyphList"

subsection \<open>Classification: \<^verbatim>\<open>_findExceptions\<close>\<close>

text \<open>
  First loop, over the reversed key list: pairs whose left item carries the ignore tag
  are deleted; pairs with the exception tag move to \<^verbatim>\<open>predefined_exceptions\<close>.
\<close>

definition strip_step :: "pair \<Rightarrow> kern_processor \<Rightarrow> py_error + kern_processor" where
  "strip_step pair s =
     (if str_contains tag_ignore (fst pair) then
        bindE (subscript (kerning s) pair) (\<lambda>_.
          Inr (s\<lparr>kerning := AList.delete pair (kerning s)\<rparr>))
      else if list_ex (\<lambda>item. str_contains tag_exception item) [fst pair, snd pair] then
        bindE (subscript (kerning s) pair) (\<lambda>value.
          Inr (s\<lparr>predefined_exceptions := AList.update pair value (predefined_exceptions s),
                 kerning := AList.delete pair (kerning s)\<rparr>))
      else Inr s)"

text \<open>
  The three comprehensions that sort the remaining keys by shape. \<^verbatim>\<open>and\<close> does not
  look at the right item when the left one already decides.
\<close>

definition is_glyph_2_glyph :: "pair \<Rightarrow> py_error + bool" where
  "is_glyph_2_glyph pair =
     bindE (isGroup (fst pair)) (\<lambda>lg.
       if lg then Inr False else bindE (isGroup (snd pair)) (\<lambda>rg. Inr (\<not> rg)))"

definition is_glyph_2_group :: "pair \<Rightarrow> py_error + bool" where
  "is_glyph_2_group pair =
     bindE (isGroup (fst pair)) (\<lambda>lg.
       if lg then Inr False else bindE (isGroup (snd pair)) (\<lambda>rg. Inr rg))"

definition is_group_2_item :: "pair \<Rightarrow> py_error + bool" where
  "is_group_2_item pair = isGroup (fst pair)"

text \<open>
  The stores the classification loops make. The same assignments occur in several
  branches, with the RTL test choosing between a bucket and its right-to-left sibling;
  each is written once here and named after the bucket it fills.
\<close>

definition add_glyph_glyph_exception ::
  "bool \<Rightarrow> pair \<Rightarrow> kern_value \<Rightarrow> kern_processor \<Rightarrow> kern_processor" where
  "add_glyph_glyph_exception isRTLpair pair value s =
     (if isRTLpair
      then s\<lparr>rtl_glyph_glyph_exceptions := AList.update pair value (rtl_glyph_glyph_exceptions s)\<rparr>
      else s\<lparr>glyph_glyph_exceptions := AList.update pair value (glyph_glyph_exceptions s)\<rparr>)"

definition add_glyph_group_exception ::
  "bool \<Rightarrow> pair \<Rightarrow> kern_value \<Rightarrow> kern_processor \<Rightarrow> kern_processor" where
  "add_glyph_group_exception isRTLpair pair value s =
     (if isRTLpair
      then s\<lparr>rtl_glyph_group_exceptions := AList.update pair value (rtl_glyph_group_exceptions s)\<rparr>
      else s\<lparr>glyph_group_exceptions := AList.update pair value (glyph_group_exceptions s)\<rparr>)
     \<lparr>pairs_processed := pairs_processed s @ [pair]\<rparr>"

text \<open>
  The \<^verbatim>\<open>else\<close> of the loop over the members of the group: it always runs, since the
  loop has no \<^verbatim>\<open>break\<close>, and it reads the variable \<^verbatim>\<open>value\<close> as the loop left it.
\<close>

definition add_glyph_group ::
  "bool \<Rightarrow> pair \<Rightarrow> kern_value \<Rightarrow> kern_processor \<Rightarrow> kern_processor" where
  "add_glyph_group isRTLpair pair value s =
     (if value = Static 0 then s\<lparr>pairs_unprocessed := pairs_unprocessed s @ [pair]\<rparr>
      else (if isRTLpair
            then s\<lparr>rtl_glyph_group := AList.update pair value (rtl_glyph_group s)\<rparr>
            else s\<lparr>glyph_group := AList.update pair value (glyph_group s)\<rparr>)
           \<lparr>pairs_processed := pairs_processed s @ [pair]\<rparr>)"

text \<open>
  In the group to glyph exception branch, \<^verbatim>\<open>pairs_processed.append\<close> stands inside the
  \<^verbatim>\<open>else\<close> of the RTL test.
\<close>

definition add_group_glyph_exception ::
  "bool \<Rightarrow> pair \<Rightarrow> kern_value \<Rightarrow> kern_processor \<Rightarrow> kern_processor" where
  "add_group_glyph_exception isRTLpair pair value s =
     (if isRTLpair
      then s\<lparr>rtl_group_glyph_exceptions := AList.update pair value (rtl_group_glyph_exceptions s)\<rparr>
      else s\<lparr>group_glyph_exceptions := AList.update pair value (group_glyph_exceptions s),
             pairs_processed := pairs_processed s @ [pair]\<rparr>)"

text \<open>
  The end of the group to group or glyph loop body; its state also carries the two
  local lists of exploded pairs.
\<close>

definition add_group_group ::
  "bool \<Rightarrow> pair \<Rightarrow> kern_value \<Rightarrow> string list \<Rightarrow> string list \<Rightarrow>
     kern_processor \<times> pair list \<times> pair list \<Rightarrow> kern_processor \<times> pair list \<times> pair list" where
  "add_group_group isRTLpair pair value l_group_glyphs r_group_glyphs st =
     (case st of (s, explodedPairList, RTLexplodedPairList) \<Rightarrow>
        if value = Static 0 then
          (s\<lparr>pairs_unprocessed := pairs_unprocessed s @ [pair]\<rparr>,
           explodedPairList, RTLexplodedPairList)
        else if isRTLpair then
          (s\<lparr>rtl_group_group := AList.update pair value (rtl_group_group s),
             pairs_processed := pairs_processed s @ [pair]\<rparr>,
           explodedPairList, RTLexplodedPairList @ explode l_group_glyphs r_group_glyphs)
        else
          (s\<lparr>group_group := AList.update pair value (group_group s),
             pairs_processed := pairs_processed s @ [pair]\<rparr>,
           explodedPairList @ explode l_group_glyphs r_group_glyphs, RTLexplodedPairList))"

text \<open>
  The body of the last loop, over the glyph to glyph pairs, once both
  \<^verbatim>\<open>grouped_left\<close> and \<^verbatim>\<open>grouped_right\<close> are read.
\<close>

definition add_glyph_glyph ::
  "string list \<Rightarrow> string list \<Rightarrow> bool \<Rightarrow> pair \<Rightarrow> kern_value \<Rightarrow> kern_processor \<Rightarrow>
     kern_processor" where
  "add_glyph_glyph the_grouped_left the_grouped_right isRTLpair pair value s =
     (let s' =
        (if fst pair \<in> set the_grouped_left \<or> snd pair \<in> set the_grouped_right then
           add_glyph_glyph_exception isRTLpair pair value s
         else if pair \<notin> set (map fst (glyph_glyph_exceptions s)) \<and>
                 pair \<notin> set (map fst (rtl_glyph_glyph_exceptions s)) then
           (if isRTLpair
            then s\<lparr>rtl_glyph_glyph := AList.update pair value (rtl_glyph_glyph s)\<rparr>
            else s\<lparr>glyph_glyph := AList.update pair value (glyph_glyph s)\<rparr>)
         else s)
      in s'\<lparr>pairs_processed := pairs_processed s' @ [pair]\<rparr>)"

text \<open>
  Glyph to group pairs. The inner loop over the members of the group assigns the
  variable \<^verbatim>\<open>value\<close> again, so the loop state carries it.
\<close>

definition member_step ::
  "pair list \<Rightarrow> bool \<Rightarrow> string \<Rightarrow> string \<Rightarrow> kern_value \<times> kern_processor \<Rightarrow>
     py_error + (kern_value \<times> kern_processor)" where
  "member_step glyph_2_glyph isRTLpair glyph groupedGlyph vs =
     (case vs of (value, s) \<Rightarrow>
        let x_pair = (glyph, groupedGlyph)
        in if x_pair \<in> set glyph_2_glyph then
             bindE (subscript (kerning s) x_pair) (\<lambda>value.
               Inr (value, add_glyph_glyph_exception isRTLpair x_pair value s))
           else Inr (value, s))"

definition glyph_group_step :: "pair list \<Rightarrow> pair \<Rightarrow> kern_processor \<Rightarrow> py_error + kern_processor" where
  "glyph_group_step glyph_2_glyph pair s =
     (case pair of (glyph, group_name) \<Rightarrow>
        bindE (subscript (kerning s) pair) (\<lambda>value.
        bindE (subscript (groups s) group_name) (\<lambda>groupList.
        let isRTLpair = isRTL (reference_groups s) pair in
        bindE (attribute (grouped_left s)) (\<lambda>the_grouped_left.
          if glyph \<in> set the_grouped_left then
            Inr (add_glyph_group_exception isRTLpair pair value s)
          else
            bindE (foldE (member_step glyph_2_glyph isRTLpair glyph) groupList (value, s))
              (\<lambda>(value, s). Inr (add_glyph_group isRTLpair pair value s))))))"

text \<open>
  Group to group or glyph pairs. The right item is a group, a glyph that is grouped on
  the right (an exception: \<^verbatim>\<open>continue\<close>), or a glyph standing for a group of its own.
\<close>

definition group_item_step ::
  "pair \<Rightarrow> kern_processor \<times> pair list \<times> pair list \<Rightarrow>
     py_error + (kern_processor \<times> pair list \<times> pair list)" where
  "group_item_step pair st =
     (case (pair, st) of ((leftGroup, rightItem), (s, explodedPairList, RTLexplodedPairList)) \<Rightarrow>
        bindE (subscript (kerning s) pair) (\<lambda>value.
        let isRTLpair = isRTL (reference_groups s) pair in
        bindE (subscript (groups s) leftGroup) (\<lambda>l_group_glyphs.
        bindE (isGroup rightItem) (\<lambda>rg.
        bindE (if rg then bindE (subscript (groups s) rightItem) (\<lambda>glyphs. Inr (Some glyphs))
               else bindE (attribute (grouped_right s)) (\<lambda>the_grouped_right.
                      Inr (if rightItem \<in> set the_grouped_right then None
                           else Some [rightItem])))
          (\<lambda>r. case r of
             None \<Rightarrow>
               Inr (add_group_glyph_exception isRTLpair pair value s,
                    explodedPairList, RTLexplodedPairList)
           | Some r_group_glyphs \<Rightarrow>
               Inr (add_group_group isRTLpair pair value l_group_glyphs r_group_glyphs
                      (s, explodedPairList, RTLexplodedPairList)))))))"

definition exception_step :: "pair \<Rightarrow> kern_processor \<Rightarrow> py_error + kern_processor" where
  "exception_step pair s =
     bindE (subscript (kerning s) pair) (\<lambda>value.
       Inr (add_glyph_glyph_exception False pair value s))"

definition rtl_exception_step :: "pair \<Rightarrow> kern_processor \<Rightarrow> py_error + kern_processor" where
  "rtl_exception_step pair s =
     bindE (subscript (kerning s) pair) (\<lambda>value.
       Inr (add_glyph_glyph_exception True pair value s))"

text \<open>
  The remaining glyph to glyph pairs. The list handed to \<^verbatim>\<open>any\<close> is built first, so
  both \<^verbatim>\<open>grouped_left\<close> and \<^verbatim>\<open>grouped_right\<close> are read, in this order.
\<close>

definition glyph_glyph_step :: "pair \<Rightarrow> kern_processor \<Rightarrow> py_error + kern_processor" where
  "glyph_glyph_step pair s =
     bindE (subscript (kerning s) pair) (\<lambda>value.
     let isRTLpair = isRTL (reference_groups s) pair in
     bindE (attribute (grouped_left s)) (\<lambda>the_grouped_left.
     bindE (attribute (grouped_right s)) (\<lambda>the_grouped_right.
       Inr (add_glyph_glyph the_grouped_left the_grouped_right isRTLpair pair value s))))"

text \<open>
  The two sets of exception pairs are Python sets, traversed in no particular order;
  each traversal only stores \<^verbatim>\<open>self.kerning[pair]\<close> under the key \<^verbatim>\<open>pair\<close>, so the
  buckets hold the same entries in any order. The sorted order is taken here.
\<close>

definition findExceptions :: "kern_processor \<Rightarrow> py_error + kern_processor" where
  "findExceptions s0 =
     bindE (foldE strip_step (rev (map fst (kerning s0))) s0) (\<lambda>s1.
     bindE (filterE is_glyph_2_glyph (map fst (kerning s1))) (\<lambda>gg.
     bindE (filterE is_glyph_2_group (map fst (kerning s1))) (\<lambda>gc.
     bindE (filterE is_group_2_item (map fst (kerning s1))) (\<lambda>ci.
     let glyph_2_glyph = sort gg; glyph_2_group = sort gc; group_2_item = sort ci in
     bindE (foldE (glyph_group_step glyph_2_glyph) glyph_2_group s1) (\<lambda>s2.
     bindE (foldE group_item_step group_2_item (s2, [], []))
       (\<lambda>(s3, explodedPairList, RTLexplodedPairList).
     let s4 = s3\<lparr>exceptionPairs := filter (\<lambda>p. p \<in> set explodedPairList) glyph_2_glyph,
                 RTLexceptionPairs := filter (\<lambda>p. p \<in> set RTLexplodedPairList) glyph_2_glyph\<rparr>
     in
     bindE (foldE exception_step (exceptionPairs s4) s4) (\<lambda>s5.
     bindE (foldE rtl_exception_step (RTLexceptionPairs s5) s5) (\<lambda>s6.
     foldE glyph_glyph_step glyph_2_glyph s6))))))))"

subsection \<open>\<^verbatim>\<open>KernProcessor.__init__\<close>\<close>

text \<open>
  \<^verbatim>\<open>used_groups\<close> maps every used name to \<^verbatim>\<open>groups.get(name)\<close>. A used name is a
  group item of the sanitized kerning, and sanitizing removed every pair with a group
  item that is not a key of \<^verbatim>\<open>groups\<close>, so the lookup always finds a glyph list.
\<close>

definition used_groups_of :: "gdict \<Rightarrow> string list \<Rightarrow> gdict" where
  "used_groups_of groups_d used_group_names =
     List.map_filter (\<lambda>g_name. map_option (Pair g_name) (map_of groups_d g_name))
       used_group_names"

definition KernProcessor :: "gdict \<Rightarrow> kdict \<Rightarrow> bool \<Rightarrow> py_error + kern_processor" where
  "KernProcessor groups_d kerning_d option_dissolve =
     (let ref_groups = filter (\<lambda>(group, glyph_list). \<not> isKerningGroup group) groups_d in
      bindE (sanitize_kerning groups_d kerning_d) (\<lambda>sanitized_kerning.
      bindE (get_used_groups sanitized_kerning) (\<lambda>used_group_names.
      let used_groups = used_groups_of groups_d used_group_names;
          s0 = (if used_groups \<noteq> [] \<and> option_dissolve then
                  (case dissolveSingleGroups used_groups sanitized_kerning of
                     (dissolved_groups, dissolved_kerning) \<Rightarrow>
                       new_processor ref_groups (remap_groups dissolved_groups)
                         (remap_kerning dissolved_kerning))
                else new_processor ref_groups (remap_groups used_groups)
                       (remap_kerning sanitized_kerning))
      in
      bindE (if used_groups \<noteq> [] then
               bindE (getAllGroupedGlyphs (groups s0) (kerning s0)) (\<lambda>(gl, gr).
                 Inr (s0\<lparr>grouped_left := Some gl, grouped_right := Some gr\<rparr>))
             else Inr s0) (\<lambda>s1.
      bindE (findExceptions s1) (\<lambda>s2.
        if kerning s2 \<noteq> []
        then Inr (s2\<lparr>group_order := Some (sort (map fst (groups s2)))\<rparr>)
        else Inr s2)))))"

section \<open>MakeMeasuredSubtables\<close>

text \<open>
  The four running sets are kept as duplicate-free lists: \<^verbatim>\<open>s.update(xs)\<close> is
  \<^const>\<open>List.union\<close>, \<^verbatim>\<open>s.add(x)\<close> is \<^const>\<open>List.insert\<close> and \<^verbatim>\<open>len(s)\<close> is
  \<^const>\<open>length\<close>. \<^verbatim>\<open>groups.get(item, [item])\<close> is \<open>members\<close>.
\<close>

type_synonym accumulators = "string list \<times> string list \<times> string list \<times> string list"

definition members :: "gdict \<Rightarrow> string \<Rightarrow> string list" where
  "members groups_d item = (case map_of groups_d item of Some glyphs \<Rightarrow> glyphs | None \<Rightarrow> [item])"

definition getNumberOfKernedGlyphs :: "kdict \<Rightarrow> gdict \<Rightarrow> nat" where
  "getNumberOfKernedGlyphs kerning_d groups_d =
     (let leftList = concat (map (\<lambda>(left, right). members groups_d left) (map fst kerning_d));
          rightList = concat (map (\<lambda>(left, right). members groups_d right) (map fst kerning_d))
      in length (remdups (leftList @ rightList)))"

definition absorb :: "gdict \<Rightarrow> pair \<Rightarrow> accumulators \<Rightarrow> accumulators" where
  "absorb groups_d pair acc =
     (case (pair, acc) of
        ((left, right), (groupedGlyphsLeft, groupedGlyphsRight, usedGroupsLeft, usedGroupsRight)) \<Rightarrow>
          (List.union (members groups_d left) groupedGlyphsLeft,
           List.union (members groups_d right) groupedGlyphsRight,
           List.insert left usedGroupsLeft,
           List.insert right usedGroupsRight))"

text \<open>
  The sizes are assigned inside the loop over the pairs of the item; after the loop
  they hold what the last pass computed, from the accumulators as they then are.
\<close>

definition estimate :: "nat \<Rightarrow> accumulators \<Rightarrow> int" where
  "estimate coverageTableSize acc =
     (case acc of (groupedGlyphsLeft, groupedGlyphsRight, usedGroupsLeft, usedGroupsRight) \<Rightarrow>
        let leftClassSize = 6 + 2 * length groupedGlyphsLeft;
            rightClassSize = 6 + 2 * length groupedGlyphsRight;
            subtableMetadataSize = coverageTableSize + leftClassSize + rightClassSize;
            subtable_size = 16 + length usedGroupsLeft * length usedGroupsRight * 2
        in int (subtableMetadataSize + subtable_size))"

definition itemPairs :: "kdict \<Rightarrow> string \<Rightarrow> pair list" where
  "itemPairs kernDict item = filter (\<lambda>pair. fst pair = item) (map fst kernDict)"

definition measure_step ::
  "kdict \<Rightarrow> gdict \<Rightarrow> nat \<Rightarrow> int \<Rightarrow> string \<Rightarrow>
     string list list \<times> string list \<times> accumulators \<Rightarrow>
     string list list \<times> string list \<times> accumulators" where
  "measure_step kernDict groups_d coverageTableSize maxSubtableSize item st =
     (case st of (measuredSubtables, subtable, acc) \<Rightarrow>
        let acc' = fold (absorb groups_d) (itemPairs kernDict item) acc
        in if estimate coverageTableSize acc' < maxSubtableSize
           then (measuredSubtables, subtable @ [item], acc')
           else (measuredSubtables @ [subtable], [item], ([], [], [], [])))"

definition measuredSubtables_of :: "kdict \<Rightarrow> kdict \<Rightarrow> gdict \<Rightarrow> int \<Rightarrow> string list list" where
  "measuredSubtables_of kernDict kerning_d groups_d maxSubtableSize =
     (let numberOfKernedGlyphs = getNumberOfKernedGlyphs kerning_d groups_d;
          coverageTableSize = 2 + 2 * numberOfKernedGlyphs;
          leftItems = sorted_set (map fst (map fst kernDict))
      in case fold (measure_step kernDict groups_d coverageTableSize maxSubtableSize) leftItems
                ([], [], ([], [], [], [])) of
           (measuredSubtables, subtable, acc) \<Rightarrow>
             if length subtable \<noteq> 0 then measuredSubtables @ [subtable] else measuredSubtables)"

text \<open>
  The last loop builds one dictionary per list of left items; every value is
  \<^verbatim>\<open>kerning.get(pair)\<close>, which is \<^verbatim>\<open>None\<close> for a pair the kerning does not hold.
\<close>

definition stDict_of :: "kdict \<Rightarrow> kdict \<Rightarrow> string list \<Rightarrow> (pair \<times> kern_value option) list" where
  "stDict_of kernDict kerning_d leftItemList =
     fold (\<lambda>leftItem stDict.
             fold (\<lambda>pair stDict. AList.update pair (map_of kerning_d pair) stDict)
               (itemPairs kernDict leftItem) stDict)
       leftItemList []"

definition MakeMeasuredSubtables ::
  "kdict \<Rightarrow> kdict \<Rightarrow> gdict \<Rightarrow> int \<Rightarrow> (pair \<times> kern_value option) list list" where
  "MakeMeasuredSubtables kernDict kerning_d groups_d maxSubtableSize =
     map (stDict_of kernDict kerning_d)
       (measuredSubtables_of kernDict kerning_d groups_d maxSubtableSize)"

section \<open>Rendering decisions of \<^verbatim>\<open>run\<close>\<close>

text \<open>
  Of the renderer only the decisions are modelled, not the text it formats.
  \<^verbatim>\<open>_buildSubtableOutput\<close> skips a table of length zero, and writes a break before
  every table but the first one counted by \<^verbatim>\<open>subtablesCreated\<close>.
\<close>

datatype 'a output_item = CommentLine string | SubtableBreak | PosLines 'a

fun subtable_loop :: "'a list list \<Rightarrow> nat \<Rightarrow> 'a list output_item list \<times> nat" where
  "subtable_loop [] subtablesCreated = ([], subtablesCreated)"
| "subtable_loop (table # rest) subtablesCreated =
     (if length table \<noteq> 0 then
        (case subtable_loop rest (subtablesCreated + 1) of
           (out, n) \<Rightarrow>
             ((if subtablesCreated + 1 > 1 then [SubtableBreak] else []) @ [PosLines table] @ out,
              n))
      else subtable_loop rest subtablesCreated)"

definition buildSubtableOutput ::
  "'a list list \<Rightarrow> string \<Rightarrow> nat \<Rightarrow> 'a list output_item list \<times> nat" where
  "buildSubtableOutput subtableList comment subtablesCreated =
     (case subtable_loop subtableList subtablesCreated of
        (out, n) \<Rightarrow>
          ((if sum_list (map length subtableList) > 0 then [CommentLine comment] else []) @ out,
           n))"

text \<open>
  \<^verbatim>\<open>_dict2pos\<close> for a left-to-right bucket: which line one pair of the bucket yields.
  Without \<^verbatim>\<open>enum\<close>, in a static font, the value goes through \<^verbatim>\<open>abs\<close>, which raises
  TypeError on a string.
\<close>

datatype line_kind = EnumLine | PosLine | TrimmedComment | TrimmedDropped

definition dict2pos_line :: "bool \<Rightarrow> bool \<Rightarrow> int \<Rightarrow> bool \<Rightarrow> kern_value \<Rightarrow> py_error + line_kind" where
  "dict2pos_line MM write_trimmed_pairs minimum enum value =
     (if MM then Inr (if enum then EnumLine else PosLine)
      else if enum then Inr EnumLine
      else (case value of
              Static kernValue \<Rightarrow>
                if \<bar>kernValue\<bar> < minimum
                then Inr (if write_trimmed_pairs then TrimmedComment else TrimmedDropped)
                else Inr PosLine
            | Master _ \<Rightarrow> Inl TypeError))"

text \<open>
  The first rows of \<^verbatim>\<open>LTRorder\<close> in \<^verbatim>\<open>_makeOutputData\<close>: bucket, minimum, comment
  and \<^verbatim>\<open>enum\<close> flag handed to \<^verbatim>\<open>_dict2pos\<close>.
\<close>

definition LTRorder :: "int \<Rightarrow> kern_processor \<Rightarrow> (kdict \<times> int \<times> string \<times> bool) list" where
  "LTRorder minKern kp =
     [(predefined_exceptions kp, 0, CHR 0x0A # ''# pre-defined exceptions:'', True),
      (glyph_glyph kp, minKern, CHR 0x0A # ''# glyph, glyph:'', False),
      (glyph_glyph_exceptions kp, 0, CHR 0x0A # ''# glyph, glyph exceptions:'', False),
      (glyph_group_exceptions kp, 0, CHR 0x0A # ''# glyph, group exceptions:'', True),
      (group_glyph_exceptions kp, 0, CHR 0x0A # ''# group, glyph exceptions:'', True)]"

section \<open>Notions of the specification\<close>

text \<open>
  What the specification of dissolving calls the sole glyph of a group: the item a
  kerning item stands for once every used group with exactly one member that is not a
  right-to-left group is replaced by that member. Written from the specification, to be
  compared with \<^const>\<open>dissolved_item\<close> of the code.
\<close>

definition spec_sole_glyph :: "gdict \<Rightarrow> string \<Rightarrow> string" where
  "spec_sole_glyph groups_d item =
     (case map_of groups_d item of
        Some glyphs \<Rightarrow> if length glyphs = 1 \<and> \<not> isRTLGroup item then hd glyphs else item
      | None \<Rightarrow> item)"

text \<open>
  Notions used to state properties of the classifier: the two tests of the first loop
  of \<^verbatim>\<open>_findExceptions\<close>, and the part of the processor that the later loops only read.
\<close>

definition has_ignore_tag :: "pair \<Rightarrow> bool" where
  "has_ignore_tag pair = str_contains tag_ignore (fst pair)"

definition has_exception_tag :: "pair \<Rightarrow> bool" where
  "has_exception_tag pair =
     (str_contains tag_exception (fst pair) \<or> str_contains tag_exception (snd pair))"

definition context_of ::
  "kern_processor \<Rightarrow> kdict \<times> gdict \<times> gdict \<times> string list option \<times> string list option \<times> kdict \<times> kdict" where
  "context_of s =
     (kerning s, groups s, reference_groups s, grouped_left s, grouped_right s,
      predefined_exceptions s, rtl_predefined_exceptions s)"

text \<open>
  A glyph to glyph pair is held, with a given value, by the glyph to glyph exceptions
  bucket or by its right-to-left sibling.
\<close>

definition holds_override :: "pair \<Rightarrow> kern_value \<Rightarrow> kern_processor \<Rightarrow> bool" where
  "holds_override x_pair value s =
     (map_of (glyph_glyph_exceptions s) x_pair = Some value \<or>
      map_of (rtl_glyph_glyph_exceptions s) x_pair = Some value)"

text \<open>
  Two processors as \<^verbatim>\<open>__init__\<close> leaves them before \<^verbatim>\<open>_findExceptions\<close>. In the first,
  \<^verbatim>\<open>T\<close> is kerned against the group of \<^verbatim>\<open>O\<close> and against \<^verbatim>\<open>O\<close> itself, and is not
  grouped on the left. In the second, \<^verbatim>\<open>T\<close> is also a member of a left group that is
  used, and the group of \<^verbatim>\<open>O\<close> is a right-to-left group.
\<close>

definition override_processor :: kern_processor where
  "override_processor =
     (new_processor [] [(''@MMK_R_O'', [''O''])]
        [((''T'', ''@MMK_R_O''), Static (- 30)), ((''T'', ''O''), Static (- 10))])
     \<lparr>grouped_left := Some [], grouped_right := Some [''O'']\<rparr>"

definition grouped_glyph_processor :: kern_processor where
  "grouped_glyph_processor =
     (new_processor [] [(''@MMK_L_T'', [''T'', ''Tbar'']), (''@MMK_R_O_ARA'', [''O''])]
        [((''@MMK_L_T'', ''x''), Static 3), ((''T'', ''@MMK_R_O_ARA''), Static (- 5)),
         ((''T'', ''O''), Static (- 10))])
     \<lparr>grouped_left := Some [''T'', ''Tbar''], grouped_right := Some [''O'']\<rparr>"

section \<open>Properties of the group name remap\<close>

lemma str_replace_absent:
  "\<not> str_contains (a # old) s \<Longrightarrow> str_replace (a # old) new s = s"
  by (induction s) auto

lemma remap_group_name_plain:
  "\<not> str_contains ''public.kern1.'' r \<Longrightarrow> \<not> str_contains ''public.kern2.'' r \<Longrightarrow>
     remap_group_name r = r"
  by (simp add: remap_group_name_def)

lemma remap_group_name_kern1:
  assumes "\<not> str_contains ''public.kern1.'' r"
  shows "remap_group_name (''public.kern1.'' @ r) =
           (if prefix ''@MMK_L_'' r then r else ''@MMK_L_'' @ r)"
  using assms by (simp add: remap_group_name_def str_replace_absent Let_def)

lemma remap_group_name_kern2:
  assumes "\<not> str_contains ''public.kern1.'' r" and "\<not> str_contains ''public.kern2.'' r"
  shows "remap_group_name (''public.kern2.'' @ r) =
           (if prefix ''@MMK_R_'' r then r else ''@MMK_R_'' @ r)"
  using assms by (simp add: remap_group_name_def str_replace_absent Let_def)

text \<open>
  Claim C8, as amended. A name that contains neither \<^verbatim>\<open>public.kern1.\<close> nor
  \<^verbatim>\<open>public.kern2.\<close> (a name already in the @MMK convention, a glyph name) is returned
  unchanged. A storage name made of one of the two prefixes followed by such a name is
  remapped to the display convention (the prefix is dropped when the rest already starts
  with the @MMK prefix of its side, and replaced by it otherwise), and remapping the
  result again changes nothing.
\<close>

theorem remap_group_name_idempotent:
  assumes "\<not> str_contains ''public.kern1.'' r" and "\<not> str_contains ''public.kern2.'' r"
  shows "remap_group_name r = r \<and>
         remap_group_name (''public.kern1.'' @ r) =
           (if prefix ''@MMK_L_'' r then r else ''@MMK_L_'' @ r) \<and>
         remap_group_name (''public.kern2.'' @ r) =
           (if prefix ''@MMK_R_'' r then r else ''@MMK_R_'' @ r) \<and>
         remap_group_name (remap_group_name (''public.kern1.'' @ r)) =
           remap_group_name (''public.kern1.'' @ r) \<and>
         remap_group_name (remap_group_name (''public.kern2.'' @ r)) =
           remap_group_name (''public.kern2.'' @ r)"
proof -
  have plain: "remap_group_name r = r"
    using assms by (rule remap_group_name_plain)
  have k1: "remap_group_name (''public.kern1.'' @ r) =
              (if prefix ''@MMK_L_'' r then r else ''@MMK_L_'' @ r)"
    using assms(1) by (rule remap_group_name_kern1)
  have k2: "remap_group_name (''public.kern2.'' @ r) =
              (if prefix ''@MMK_R_'' r then r else ''@MMK_R_'' @ r)"
    using assms by (rule remap_group_name_kern2)
  have l: "remap_group_name (''@MMK_L_'' @ r) = ''@MMK_L_'' @ r"
    using assms by (intro remap_group_name_plain) simp_all
  have r: "remap_group_name (''@MMK_R_'' @ r) = ''@MMK_R_'' @ r"
    using assms by (intro remap_group_name_plain) simp_all
  have i1: "remap_group_name (remap_group_name (''public.kern1.'' @ r)) =
              remap_group_name (''public.kern1.'' @ r)"
    unfolding k1 using plain l by (cases "prefix ''@MMK_L_'' r") simp_all
  have i2: "remap_group_name (remap_group_name (''public.kern2.'' @ r)) =
              remap_group_name (''public.kern2.'' @ r)"
    unfolding k2 using plain r by (cases "prefix ''@MMK_R_'' r") simp_all
  show ?thesis using plain k1 k2 i1 i2 by blast
qed

text \<open>
  The theorem at \<^verbatim>\<open>A_UC\<close> and at \<^verbatim>\<open>@MMK_R_A_UC\<close>.
\<close>

theorem remap_group_name_idempotent_witness:
  "\<not> str_contains ''public.kern1.'' ''A_UC'' \<and> \<not> str_contains ''public.kern2.'' ''A_UC'' \<and>
   remap_group_name ''public.kern1.A_UC'' = ''@MMK_L_A_UC'' \<and>
   remap_group_name (remap_group_name ''public.kern1.A_UC'') = remap_group_name ''public.kern1.A_UC'' \<and>
   remap_group_name ''public.kern2.@MMK_R_A_UC'' = ''@MMK_R_A_UC''"
  using remap_group_name_idempotent [of "''A_UC''"] remap_group_name_idempotent [of "''@MMK_R_A_UC''"]
  by (simp add: remap_group_name_def)

text \<open>
  Claim C8 as stated fails: \<^verbatim>\<open>public.kern1.public.kern2.A\<close> is a group name, its
  remapped name still contains \<^verbatim>\<open>public.kern2.\<close>, and a second remap changes it.
\<close>

theorem remap_group_name_not_idempotent:
  "isGroup ''public.kern1.public.kern2.A'' = Inr True \<and>
   remap_group_name ''public.kern1.public.kern2.A'' = ''@MMK_L_public.kern2.A'' \<and>
   remap_group_name (remap_group_name ''public.kern1.public.kern2.A'') = ''@MMK_L_@MMK_R_A'' \<and>
   remap_group_name (remap_group_name ''public.kern1.public.kern2.A'') \<noteq>
     remap_group_name ''public.kern1.public.kern2.A''"
  by (simp add: remap_group_name_def isGroup_def)

section \<open>Properties of dissolving single groups\<close>

lemma map_of_filter_distinct:
  "distinct (map fst xs) \<Longrightarrow>
     map_of (filter P xs) k = (case map_of xs k of Some v \<Rightarrow> if P (k, v) then Some v else None | None \<Rightarrow> None)"
proof (induction xs)
  case Nil then show ?case by simp
next
  case (Cons x xs)
  obtain a b where x: "x = (a, b)" by (cases x)
  have "a \<notin> fst ` set xs" using Cons.prems x by simp
  then have none: "map_of xs a = None" by (simp add: map_of_eq_None_iff)
  have none': "map_of (filter P xs) a = None"
    using \<open>a \<notin> fst ` set xs\<close> by (auto simp: map_of_eq_None_iff)
  show ?case using Cons x none none' by (auto split: option.splits)
qed

lemma dissolved_item_sole:
  assumes "distinct (map fst groups_d)"
  shows "dissolved_item
           (filter (\<lambda>(group_name, glyphs). length glyphs = 1 \<and> \<not> isRTLGroup group_name) groups_d) item =
         spec_sole_glyph groups_d item"
  using assms
  by (auto simp: dissolved_item_def spec_sole_glyph_def map_of_filter_distinct split: option.splits)

lemma fold_update_last_wins:
  assumes "(k, v) \<in> set xs"
      and "\<forall>(k', v') \<in> set xs. f k' = f k \<longrightarrow> v' = v"
  shows "map_of (fold (\<lambda>(k, v) d. AList.update (f k) v d) xs d0) (f k) = Some v"
  using assms
proof (induction xs rule: rev_induct)
  case Nil then show ?case by simp
next
  case (snoc x xs)
  obtain a b where x: "x = (a, b)" by (cases x)
  show ?case
  proof (cases "f a = f k")
    case True
    then have "b = v" using snoc.prems(2) x by auto
    then show ?thesis using True x by (simp add: update_conv')
  next
    case False
    then have "(k, v) \<in> set xs" using snoc.prems(1) x by auto
    moreover have "\<forall>(k', v') \<in> set xs. f k' = f k \<longrightarrow> v' = v" using snoc.prems(2) by auto
    ultimately have "map_of (fold (\<lambda>(k, v) d. AList.update (f k) v d) xs d0) (f k) = Some v"
      by (rule snoc.IH)
    then show ?thesis using False x by (simp add: update_conv')
  qed
qed

lemma same_value_map_of:
  assumes "(k, v) \<in> set xs" and "\<forall>(k', v') \<in> set xs. k' = k \<longrightarrow> v' = v"
  shows "map_of xs k = Some v"
  using assms by (induction xs) auto

text \<open>
  What a fold of dictionary writes holds: its keys are the written keys, and each of
  its values was written or was there before.
\<close>

lemma keys_fold_update:
  "set (map fst (fold (\<lambda>(k, v) d. AList.update (f k) v d) xs d0)) =
     f ` set (map fst xs) \<union> set (map fst d0)"
proof (induction xs arbitrary: d0)
  case Nil then show ?case by simp
next
  case (Cons x xs)
  obtain k v where x: "x = (k, v)" by (cases x)
  have "set (map fst (AList.update (f k) v d0)) = insert (f k) (set (map fst d0))"
    using dom_update [of "f k" v d0] by simp
  then show ?case using Cons.IH [of "AList.update (f k) v d0"] x by auto
qed

lemma distinct_fold_update:
  "distinct (map fst d0) \<Longrightarrow> distinct (map fst (fold (\<lambda>(k, v) d. AList.update (f k) v d) xs d0))"
proof (induction xs arbitrary: d0)
  case Nil then show ?case by simp
next
  case (Cons x xs)
  obtain k v where x: "x = (k, v)" by (cases x)
  have "distinct (map fst (AList.update (f k) v d0))"
    using Cons.prems by (rule distinct_update)
  then show ?case using Cons.IH [of "AList.update (f k) v d0"] x by simp
qed

lemma update_entries:
  "(a, b) \<in> set (AList.update k v d) \<Longrightarrow> (a, b) = (k, v) \<or> (a, b) \<in> set d"
  by (induction d) (auto split: if_splits)

lemma fold_update_entries:
  "(a, b) \<in> set (fold (\<lambda>(k, v) d. AList.update (f k) v d) xs d0) \<Longrightarrow>
     (\<exists>k. (k, b) \<in> set xs \<and> f k = a) \<or> (a, b) \<in> set d0"
proof (induction xs arbitrary: d0)
  case Nil
  then show ?case by simp
next
  case (Cons x xs)
  obtain k v where x: "x = (k, v)" by (cases x)
  from Cons.prems have "(a, b) \<in> set (fold (\<lambda>(k, v) d. AList.update (f k) v d) xs
                                        (AList.update (f k) v d0))"
    by (simp add: x)
  then consider "\<exists>k. (k, b) \<in> set xs \<and> f k = a" | "(a, b) \<in> set (AList.update (f k) v d0)"
    using Cons.IH by blast
  then show ?case
  proof cases
    case 1
    then show ?thesis by auto
  next
    case 2
    then have "(a, b) = (f k, v) \<or> (a, b) \<in> set d0" by (rule update_entries)
    then show ?thesis using x by auto
  qed
qed

lemma remaining_groups_exact:
  assumes "distinct (map fst groups_d)"
  shows "filter (\<lambda>(gr_name, glyphs). gr_name \<notin> set (map fst (filter P groups_d))) groups_d =
         filter (\<lambda>x. \<not> P x) groups_d"
proof (rule filter_cong [OF refl])
  fix x assume x: "x \<in> set groups_d"
  obtain n g where ng: "x = (n, g)" by (cases x)
  have "n \<in> set (map fst (filter P groups_d)) \<longleftrightarrow> P (n, g)"
  proof
    assume "n \<in> set (map fst (filter P groups_d))"
    then obtain g' where g': "(n, g') \<in> set groups_d" "P (n, g')" by auto
    have "g' = g" using assms g'(1) x ng by (meson eq_key_imp_eq_value)
    then show "P (n, g)" using g'(2) by simp
  next
    assume "P (n, g)"
    then have "(n, g) \<in> set (filter P groups_d)" using x ng by simp
    then show "n \<in> set (map fst (filter P groups_d))" by force
  qed
  then show "(case x of (gr_name, glyphs) \<Rightarrow> gr_name \<notin> set (map fst (filter P groups_d))) = (\<not> P x)"
    by (simp add: ng)
qed

text \<open>
  Claim C9, as amended. After dissolving, no group with exactly one member that is not
  a right-to-left group remains in the group mapping: the groups that remain are the
  other groups, unchanged and in their order. Every kerning pair is rewritten, each
  dissolved group replaced by its sole glyph: the pairs of the dissolved kerning are
  exactly the rewritten pairs, so a pair that referenced a dissolved group is there no
  more; no pair occurs twice when none did before; every value of the dissolved kerning
  is the value of a pair rewritten to its pair; and a rewritten pair carries the value of
  the pair it stands for whenever every pair of the kerning that is rewritten to the same
  pair has that value.
\<close>

theorem dissolveSingleGroups_correct:
  assumes "distinct (map fst groups_d)"
      and "dissolveSingleGroups groups_d kerning_d = (remainingGroups, dissolvedKerning)"
  shows "(\<forall>(name, glyphs) \<in> set remainingGroups. \<not> (length glyphs = 1 \<and> \<not> isRTLGroup name)) \<and>
         remainingGroups =
           filter (\<lambda>(name, glyphs). \<not> (length glyphs = 1 \<and> \<not> isRTLGroup name)) groups_d \<and>
         (distinct (map fst kerning_d) \<longrightarrow> distinct (map fst dissolvedKerning)) \<and>
         set (map fst dissolvedKerning) =
           (\<lambda>(left, right). (spec_sole_glyph groups_d left, spec_sole_glyph groups_d right)) `
             set (map fst kerning_d) \<and>
         (\<forall>(pair, value) \<in> set dissolvedKerning.
            \<exists>((left, right), value') \<in> set kerning_d.
              value' = value \<and>
              (spec_sole_glyph groups_d left, spec_sole_glyph groups_d right) = pair) \<and>
         (\<forall>((left, right), value) \<in> set kerning_d.
            (\<forall>((left', right'), value') \<in> set kerning_d.
               (spec_sole_glyph groups_d left', spec_sole_glyph groups_d right') =
               (spec_sole_glyph groups_d left, spec_sole_glyph groups_d right) \<longrightarrow> value' = value) \<longrightarrow>
            map_of dissolvedKerning (spec_sole_glyph groups_d left, spec_sole_glyph groups_d right) =
              Some value)"
proof -
  let ?single = "\<lambda>(group_name, glyphs). length glyphs = 1 \<and> \<not> isRTLGroup group_name"
  define sg where "sg = filter ?single groups_d"
  define D where "D = (\<lambda>p :: pair. (spec_sole_glyph groups_d (fst p), spec_sole_glyph groups_d (snd p)))"
  have sole: "\<And>item. dissolved_item sg item = spec_sole_glyph groups_d item"
    unfolding sg_def using assms(1) by (rule dissolved_item_sole)
  have unfolded: "dissolveSingleGroups groups_d kerning_d =
      (if sg \<noteq> [] then
         (filter (\<lambda>(gr_name, glyphs). gr_name \<notin> set (map fst sg)) groups_d,
          fold (\<lambda>((left, right), value) dissolved.
                  AList.update (dissolved_item sg left, dissolved_item sg right) value dissolved)
            kerning_d [])
       else (groups_d, kerning_d))"
    unfolding sg_def dissolveSingleGroups_def Let_def by simp
  have fold_eq: "(\<lambda>((left, right), value) dissolved.
                    AList.update (dissolved_item sg left, dissolved_item sg right) value dissolved)
                 = (\<lambda>(k, v) d. AList.update (D k) v d)"
    by (auto simp: D_def fun_eq_iff sole)
  have image_eq: "(\<lambda>(left, right). (spec_sole_glyph groups_d left, spec_sole_glyph groups_d right)) = D"
    by (auto simp: D_def fun_eq_iff)
  have groups_ok: "remainingGroups = filter (\<lambda>x. \<not> ?single x) groups_d"
  proof (cases "sg = []")
    case True
    then have "\<forall>x \<in> set groups_d. \<not> ?single x" unfolding sg_def by (simp add: filter_empty_conv)
    then have "filter (\<lambda>x. \<not> ?single x) groups_d = groups_d" by (simp add: filter_id_conv)
    then show ?thesis using True assms(2) unfolded by simp
  next
    case False
    then have "remainingGroups = filter (\<lambda>(gr_name, glyphs). gr_name \<notin> set (map fst sg)) groups_d"
      using assms(2) unfolded by simp
    then show ?thesis unfolding sg_def using remaining_groups_exact [OF assms(1), of ?single] by simp
  qed
  have g: "remainingGroups =
           filter (\<lambda>(name, glyphs). \<not> (length glyphs = 1 \<and> \<not> isRTLGroup name)) groups_d"
    unfolding groups_ok by (rule filter_cong) auto
  have g0: "\<forall>(name, glyphs) \<in> set remainingGroups. \<not> (length glyphs = 1 \<and> \<not> isRTLGroup name)"
    unfolding g by auto
  have kerning_ok: "(distinct (map fst kerning_d) \<longrightarrow> distinct (map fst dissolvedKerning)) \<and>
      set (map fst dissolvedKerning) = D ` set (map fst kerning_d) \<and>
      (\<forall>(k, v) \<in> set dissolvedKerning. \<exists>p. (p, v) \<in> set kerning_d \<and> D p = k) \<and>
      (\<forall>(p, v) \<in> set kerning_d.
         (\<forall>(p', v') \<in> set kerning_d. D p' = D p \<longrightarrow> v' = v) \<longrightarrow>
         map_of dissolvedKerning (D p) = Some v)"
  proof (cases "sg = []")
    case True
    then have k: "dissolvedKerning = kerning_d" using assms(2) unfolded by simp
    have id: "D p = p" for p
      using sole [symmetric] True by (simp add: D_def dissolved_item_def)
    have "\<forall>(p, v) \<in> set kerning_d.
         (\<forall>(p', v') \<in> set kerning_d. p' = p \<longrightarrow> v' = v) \<longrightarrow> map_of kerning_d p = Some v"
    proof (clarify)
      fix l r v
      assume "((l, r), v) \<in> set kerning_d"
        and "\<forall>(p', v') \<in> set kerning_d. p' = (l, r) \<longrightarrow> v' = v"
      then show "map_of kerning_d (l, r) = Some v" by (rule same_value_map_of)
    qed
    then show ?thesis unfolding k by (auto simp: id)
  next
    case False
    then have k: "dissolvedKerning = fold (\<lambda>(k, v) d. AList.update (D k) v d) kerning_d []"
      using assms(2) unfolded by (simp add: fold_eq)
    have a: "distinct (map fst dissolvedKerning)"
      unfolding k by (rule distinct_fold_update) simp
    have b: "set (map fst dissolvedKerning) = D ` set (map fst kerning_d)"
      unfolding k using keys_fold_update [of D kerning_d "[]"] by simp
    have c: "\<forall>(k, v) \<in> set dissolvedKerning. \<exists>p. (p, v) \<in> set kerning_d \<and> D p = k"
      unfolding k using fold_update_entries [of _ _ D kerning_d "[]"] by auto
    have d: "\<forall>(p, v) \<in> set kerning_d.
         (\<forall>(p', v') \<in> set kerning_d. D p' = D p \<longrightarrow> v' = v) \<longrightarrow>
         map_of dissolvedKerning (D p) = Some v"
    proof (clarify)
      fix l r v
      assume "((l, r), v) \<in> set kerning_d"
        and "\<forall>(p', v') \<in> set kerning_d. D p' = D (l, r) \<longrightarrow> v' = v"
      then show "map_of dissolvedKerning (D (l, r)) = Some v"
        unfolding k by (rule fold_update_last_wins)
    qed
    show ?thesis using a b c d by blast
  qed
  have k1: "distinct (map fst kerning_d) \<longrightarrow> distinct (map fst dissolvedKerning)"
    using kerning_ok by blast
  have k2: "set (map fst dissolvedKerning) =
           (\<lambda>(left, right). (spec_sole_glyph groups_d left, spec_sole_glyph groups_d right)) `
             set (map fst kerning_d)"
    unfolding image_eq using kerning_ok by blast
  have k3: "\<forall>(pair, value) \<in> set dissolvedKerning.
            \<exists>((left, right), value') \<in> set kerning_d.
              value' = value \<and>
              (spec_sole_glyph groups_d left, spec_sole_glyph groups_d right) = pair"
  proof (clarify)
    fix a b v assume "((a, b), v) \<in> set dissolvedKerning"
    then obtain p where p: "(p, v) \<in> set kerning_d" "D p = (a, b)" using kerning_ok by blast
    obtain l r where lr: "p = (l, r)" by (cases p)
    show "\<exists>((left, right), value') \<in> set kerning_d.
              value' = v \<and>
              (spec_sole_glyph groups_d left, spec_sole_glyph groups_d right) = (a, b)"
      using p unfolding lr D_def by (intro bexI [of _ "((l, r), v)"]) simp_all
  qed
  have k4: "\<forall>((left, right), value) \<in> set kerning_d.
            (\<forall>((left', right'), value') \<in> set kerning_d.
               (spec_sole_glyph groups_d left', spec_sole_glyph groups_d right') =
               (spec_sole_glyph groups_d left, spec_sole_glyph groups_d right) \<longrightarrow> value' = value) \<longrightarrow>
            map_of dissolvedKerning (spec_sole_glyph groups_d left, spec_sole_glyph groups_d right) =
              Some value"
  proof (clarify)
    fix l r v
    assume in_k: "((l, r), v) \<in> set kerning_d"
      and same: "\<forall>((left', right'), value') \<in> set kerning_d.
               (spec_sole_glyph groups_d left', spec_sole_glyph groups_d right') =
               (spec_sole_glyph groups_d l, spec_sole_glyph groups_d r) \<longrightarrow> value' = v"
    have "\<forall>(p', v') \<in> set kerning_d. D p' = D (l, r) \<longrightarrow> v' = v"
      using same by (auto simp: D_def)
    then have "map_of dissolvedKerning (D (l, r)) = Some v"
      using kerning_ok in_k by blast
    then show "map_of dissolvedKerning (spec_sole_glyph groups_d l, spec_sole_glyph groups_d r) = Some v"
      by (simp add: D_def)
  qed
  show ?thesis using g0 g k1 k2 k3 k4 by blast
qed

text \<open>
  The theorem at a kerning with one dissolved group, \<^verbatim>\<open>@MMK_L_A\<close>: the pair
  \<^verbatim>\<open>(@MMK_L_A, @MMK_R_V)\<close> becomes \<^verbatim>\<open>(A, @MMK_R_V)\<close> and keeps its value -40.
\<close>

theorem dissolveSingleGroups_correct_witness:
  "dissolveSingleGroups
     [(''@MMK_L_A'', [''A'']), (''@MMK_R_V'', [''V'', ''W''])]
     [((''@MMK_L_A'', ''@MMK_R_V''), Static (- 40)), ((''T'', ''@MMK_R_V''), Static 7)] =
   ([(''@MMK_R_V'', [''V'', ''W''])],
    [((''A'', ''@MMK_R_V''), Static (- 40)), ((''T'', ''@MMK_R_V''), Static 7)]) \<and>
   set (map fst [((''A'', ''@MMK_R_V''), Static (- 40)), ((''T'', ''@MMK_R_V''), Static 7)]) =
     {(''A'', ''@MMK_R_V''), (''T'', ''@MMK_R_V'')} \<and>
   map_of [((''A'', ''@MMK_R_V''), Static (- 40)), ((''T'', ''@MMK_R_V''), Static 7)]
     (''A'', ''@MMK_R_V'') = Some (Static (- 40))"
proof -
  let ?groups = "[(''@MMK_L_A'', [''A'']), (''@MMK_R_V'', [''V'', ''W''])]"
  let ?kerning = "[((''@MMK_L_A'', ''@MMK_R_V''), Static (- 40)), ((''T'', ''@MMK_R_V''), Static 7)]"
  let ?dissolved = "[((''A'', ''@MMK_R_V''), Static (- 40)), ((''T'', ''@MMK_R_V''), Static 7)]"
  have d: "distinct (map fst ?groups)" by simp
  have r: "dissolveSingleGroups ?groups ?kerning = ([(''@MMK_R_V'', [''V'', ''W''])], ?dissolved)"
    by (simp add: dissolveSingleGroups_def dissolved_item_def isRTLGroup_def tag_ara_def
        tag_heb_def tag_RTL_def)
  have s: "spec_sole_glyph ?groups ''@MMK_L_A'' = ''A''"
          "spec_sole_glyph ?groups ''@MMK_R_V'' = ''@MMK_R_V''"
          "spec_sole_glyph ?groups ''T'' = ''T''"
    by (simp_all add: spec_sole_glyph_def isRTLGroup_def tag_ara_def tag_heb_def tag_RTL_def)
  note c = dissolveSingleGroups_correct [OF d r]
  note keys = c [THEN conjunct2, THEN conjunct2, THEN conjunct2, THEN conjunct1]
  note vals = c [THEN conjunct2, THEN conjunct2, THEN conjunct2, THEN conjunct2, THEN conjunct2]
  have k: "set (map fst ?dissolved) = {(''A'', ''@MMK_R_V''), (''T'', ''@MMK_R_V'')}"
    using keys by (simp add: s)
  have v: "map_of ?dissolved (''A'', ''@MMK_R_V'') = Some (Static (- 40))"
    using vals by (simp add: s)
  show ?thesis using r k v by simp
qed

text \<open>
  Claim C9 as stated fails: the pair \<^verbatim>\<open>(@A, x)\<close> with value 5 references the
  one-glyph group \<^verbatim>\<open>@A\<close>; after dissolving, the pair \<^verbatim>\<open>(a, x)\<close> that stands for it
  carries the value 7 of the glyph pair written after it.
\<close>

theorem dissolveSingleGroups_collision:
  "map_of [(''@A'', [''a''])] ''@A'' = Some [''a''] \<and> \<not> isRTLGroup ''@A'' \<and>
   map_of [((''@A'', ''x''), Static 5), ((''a'', ''x''), Static 7)] (''@A'', ''x'') = Some (Static 5) \<and>
   dissolveSingleGroups [(''@A'', [''a''])]
     [((''@A'', ''x''), Static 5), ((''a'', ''x''), Static 7)] =
   ([], [((''a'', ''x''), Static 7)]) \<and>
   map_of (snd (dissolveSingleGroups [(''@A'', [''a''])]
     [((''@A'', ''x''), Static 5), ((''a'', ''x''), Static 7)])) (''a'', ''x'') \<noteq> Some (Static 5)"
  by (simp add: dissolveSingleGroups_def dissolved_item_def isRTLGroup_def tag_ara_def
      tag_heb_def tag_RTL_def)

section \<open>Properties of the subtable partitioner\<close>

lemmas partitioner_defs = MakeMeasuredSubtables_def measuredSubtables_of_def stDict_of_def
  itemPairs_def measure_step_def estimate_def absorb_def members_def getNumberOfKernedGlyphs_def
  sorted_set_def List.union_def List.insert_def

lemma measure_step_eq:
  "measure_step kernDict groups_d cov maxSize i (ms, st, acc) =
     (if estimate cov (fold (absorb groups_d) (itemPairs kernDict i) acc) < maxSize
      then (ms, st @ [i], fold (absorb groups_d) (itemPairs kernDict i) acc)
      else (ms @ [st], [i], ([], [], [], [])))"
  by (simp add: measure_step_def Let_def)

lemma fold_nested_concat:
  "fold (\<lambda>x acc. fold f (h x) acc) xs acc = fold f (concat (map h xs)) acc"
  by (induction xs arbitrary: acc) simp_all

lemma measure_fold_shape:
  "fold (measure_step kernDict groups_d cov maxSize) items (ms, st, acc) = (ms', st', acc') \<Longrightarrow>
     \<exists>p ps. ms' @ [st'] = ms @ [st @ p] @ ps \<and> (\<forall>x \<in> set ps. x \<noteq> []) \<and> p @ concat ps = items"
proof (induction items arbitrary: ms st acc)
  case Nil
  then have "ms' @ [st'] = ms @ [st @ []] @ []" by simp
  then show ?case by fastforce
next
  case (Cons i items)
  define acc1 where "acc1 = fold (absorb groups_d) (itemPairs kernDict i) acc"
  have unfolded: "fold (measure_step kernDict groups_d cov maxSize) items
      (measure_step kernDict groups_d cov maxSize i (ms, st, acc)) = (ms', st', acc')"
    using Cons.prems by simp
  show ?case
  proof (cases "estimate cov acc1 < maxSize")
    case True
    then have "fold (measure_step kernDict groups_d cov maxSize) items (ms, st @ [i], acc1) = (ms', st', acc')"
      using unfolded unfolding measure_step_eq acc1_def by simp
    from Cons.IH [OF this] obtain p ps where
      "ms' @ [st'] = ms @ [(st @ [i]) @ p] @ ps" "\<forall>x \<in> set ps. x \<noteq> []" "p @ concat ps = items"
      by blast
    then have "ms' @ [st'] = ms @ [st @ (i # p)] @ ps \<and> (\<forall>x \<in> set ps. x \<noteq> []) \<and> (i # p) @ concat ps = i # items"
      by simp
    then show ?thesis by blast
  next
    case False
    then have "fold (measure_step kernDict groups_d cov maxSize) items (ms @ [st], [i], ([], [], [], [])) = (ms', st', acc')"
      using unfolded unfolding measure_step_eq acc1_def by simp
    from Cons.IH [OF this] obtain p ps where
      "ms' @ [st'] = (ms @ [st]) @ [[i] @ p] @ ps" "\<forall>x \<in> set ps. x \<noteq> []" "p @ concat ps = items"
      by blast
    then have "ms' @ [st'] = ms @ [st @ []] @ ((i # p) # ps) \<and> (\<forall>x \<in> set ((i # p) # ps). x \<noteq> []) \<and>
               [] @ concat ((i # p) # ps) = i # items"
      by simp
    then show ?thesis by blast
  qed
qed

lemma measuredSubtables_concat:
  "concat (measuredSubtables_of kernDict kerning_d groups_d maxSize) =
     sorted_set (map fst (map fst kernDict))"
proof -
  define cov where "cov = 2 + 2 * getNumberOfKernedGlyphs kerning_d groups_d"
  define items where "items = sorted_set (map fst (map fst kernDict))"
  obtain ms' st' acc' where
    f: "fold (measure_step kernDict groups_d cov maxSize) items ([], [], ([], [], [], [])) = (ms', st', acc')"
    by (metis prod_cases3)
  from measure_fold_shape [OF f] obtain p ps where
    "ms' @ [st'] = [] @ [[] @ p] @ ps" "p @ concat ps = items" by blast
  then have c: "concat (ms' @ [st']) = items" by simp
  have "measuredSubtables_of kernDict kerning_d groups_d maxSize =
          (if length st' \<noteq> 0 then ms' @ [st'] else ms')"
    using f by (simp add: measuredSubtables_of_def Let_def cov_def items_def)
  then show ?thesis using c by (auto simp: items_def)
qed

lemma fold_update_fresh:
  "distinct ps \<Longrightarrow> set ps \<inter> fst ` set d = {} \<Longrightarrow>
     fold (\<lambda>p d. AList.update p (g p) d) ps d = d @ map (\<lambda>p. (p, g p)) ps"
proof (induction ps arbitrary: d)
  case Nil then show ?case by simp
next
  case (Cons p ps)
  have fresh: "p \<notin> fst ` set d" using Cons.prems by auto
  then have u: "AList.update p (g p) d = d @ [(p, g p)]"
    by (induction d) auto
  have "set ps \<inter> fst ` set (d @ [(p, g p)]) = {}" using Cons.prems by auto
  with Cons.IH [of "d @ [(p, g p)]"] Cons.prems u show ?case by simp
qed

lemma stDict_of_eq:
  assumes "distinct (concat (map (itemPairs kernDict) leftItemList))"
  shows "stDict_of kernDict kerning_d leftItemList =
           map (\<lambda>p. (p, map_of kerning_d p)) (concat (map (itemPairs kernDict) leftItemList))"
proof -
  have "stDict_of kernDict kerning_d leftItemList =
          fold (\<lambda>p d. AList.update p (map_of kerning_d p) d)
            (concat (map (itemPairs kernDict) leftItemList)) []"
    unfolding stDict_of_def by (rule fold_nested_concat)
  also have "\<dots> = [] @ map (\<lambda>p. (p, map_of kerning_d p)) (concat (map (itemPairs kernDict) leftItemList))"
    using assms by (intro fold_update_fresh) simp_all
  finally show ?thesis by simp
qed

lemma distinct_itemPairs_concat:
  assumes "distinct (map fst kernDict)" and "distinct items"
  shows "distinct (concat (map (itemPairs kernDict) items))"
  using assms(2)
proof (induction items)
  case Nil then show ?case by simp
next
  case (Cons i items)
  have "distinct (itemPairs kernDict i)" using assms(1) by (simp add: itemPairs_def)
  moreover have "set (itemPairs kernDict i) \<inter> set (concat (map (itemPairs kernDict) items)) = {}"
    using Cons.prems by (auto simp: itemPairs_def)
  ultimately show ?case using Cons by simp
qed

lemma set_itemPairs_concat:
  "set (concat (map (itemPairs kernDict) items)) = {p \<in> set (map fst kernDict). fst p \<in> set items}"
  by (auto simp: itemPairs_def)

lemma sorted_itemPairs_concat:
  "sorted items \<Longrightarrow> sorted (map fst (concat (map (itemPairs kernDict) items)))"
proof (induction items)
  case Nil then show ?case by simp
next
  case (Cons i items)
  have a: "sorted (map fst (itemPairs kernDict i))"
    unfolding itemPairs_def by (induction kernDict) auto
  have b: "\<forall>x \<in> set (map fst (itemPairs kernDict i)). x = i"
    by (auto simp: itemPairs_def)
  have c: "\<forall>y \<in> set (map fst (concat (map (itemPairs kernDict) items))). i \<le> y"
    using Cons.prems by (auto simp: itemPairs_def)
  have "sorted (map fst (concat (map (itemPairs kernDict) items)))"
    using Cons by simp
  then show ?case using a b c by (auto simp: sorted_append)
qed

lemma concat_map_concat:
  "concat (map (\<lambda>xs. concat (map h xs)) xss) = concat (map h (concat xss))"
  by (induction xss) simp_all

lemma distinct_sorted_set: "distinct (sorted_set xs)"
  by (simp add: sorted_set_def)

lemma MakeMeasuredSubtables_eq:
  assumes "distinct (map fst kernDict)"
  shows "MakeMeasuredSubtables kernDict kerning_d groups_d maxSize =
           map (\<lambda>leftItemList. map (\<lambda>p. (p, map_of kerning_d p))
                  (concat (map (itemPairs kernDict) leftItemList)))
             (measuredSubtables_of kernDict kerning_d groups_d maxSize)"
proof -
  have "distinct (concat (measuredSubtables_of kernDict kerning_d groups_d maxSize))"
    by (simp add: measuredSubtables_concat distinct_sorted_set)
  then have "\<forall>l \<in> set (measuredSubtables_of kernDict kerning_d groups_d maxSize). distinct l"
    by (simp add: distinct_concat_iff)
  then have "\<forall>l \<in> set (measuredSubtables_of kernDict kerning_d groups_d maxSize).
               stDict_of kernDict kerning_d l =
               map (\<lambda>p. (p, map_of kerning_d p)) (concat (map (itemPairs kernDict) l))"
    using assms stDict_of_eq distinct_itemPairs_concat by blast
  then show ?thesis by (simp add: MakeMeasuredSubtables_def)
qed

lemma subtable_pairs:
  assumes "distinct (map fst kernDict)"
  shows "concat (map (map fst) (MakeMeasuredSubtables kernDict kerning_d groups_d maxSize)) =
           concat (map (itemPairs kernDict) (sorted_set (map fst (map fst kernDict))))"
proof -
  have "concat (map (map fst) (MakeMeasuredSubtables kernDict kerning_d groups_d maxSize)) =
          concat (map (\<lambda>l. concat (map (itemPairs kernDict) l))
            (measuredSubtables_of kernDict kerning_d groups_d maxSize))"
    by (simp add: MakeMeasuredSubtables_eq [OF assms] comp_def)
  also have "\<dots> = concat (map (itemPairs kernDict)
                      (concat (measuredSubtables_of kernDict kerning_d groups_d maxSize)))"
    by (rule concat_map_concat)
  finally show ?thesis by (simp add: measuredSubtables_concat)
qed

lemma subtable_entries:
  assumes "distinct (map fst kernDict)"
  shows "concat (MakeMeasuredSubtables kernDict kerning_d groups_d maxSize) =
           map (\<lambda>p. (p, map_of kerning_d p))
             (concat (map (itemPairs kernDict) (sorted_set (map fst (map fst kernDict)))))"
proof -
  have "concat (MakeMeasuredSubtables kernDict kerning_d groups_d maxSize) =
          map (\<lambda>p. (p, map_of kerning_d p))
            (concat (map (\<lambda>l. concat (map (itemPairs kernDict) l))
              (measuredSubtables_of kernDict kerning_d groups_d maxSize)))"
    by (simp add: MakeMeasuredSubtables_eq [OF assms] map_concat comp_def)
  also have "concat (map (\<lambda>l. concat (map (itemPairs kernDict) l))
              (measuredSubtables_of kernDict kerning_d groups_d maxSize)) =
             concat (map (itemPairs kernDict)
               (concat (measuredSubtables_of kernDict kerning_d groups_d maxSize)))"
    by (rule concat_map_concat)
  finally show ?thesis by (simp add: measuredSubtables_concat)
qed

lemma all_pairs_covered:
  "set (concat (map (itemPairs kernDict) (sorted_set (map fst (map fst kernDict))))) =
     set (map fst kernDict)"
proof -
  have "set (sorted_set (map fst (map fst kernDict))) = fst ` fst ` set kernDict"
    by (simp add: sorted_set_def image_image)
  then have "set (concat (map (itemPairs kernDict) (sorted_set (map fst (map fst kernDict))))) =
               {p \<in> set (map fst kernDict). fst p \<in> fst ` fst ` set kernDict}"
    by (simp only: set_itemPairs_concat)
  also have "\<dots> = set (map fst kernDict)" by force
  finally show ?thesis .
qed

lemma subtable_loop_no_empty: "PosLines [] \<notin> set (fst (subtable_loop tables n))"
proof (induction tables arbitrary: n)
  case Nil
  then show ?case by simp
next
  case (Cons table rest)
  show ?case
  proof (cases "length table \<noteq> 0")
    case True
    obtain out m where r: "subtable_loop rest (n + 1) = (out, m)" by (cases "subtable_loop rest (n + 1)")
    have "PosLines [] \<notin> set out" using Cons [of "n + 1"] r by simp
    then show ?thesis using True r by auto
  next
    case False
    then show ?thesis using Cons [of n] by simp
  qed
qed

lemma buildSubtableOutput_no_empty:
  "PosLines [] \<notin> set (fst (buildSubtableOutput tables comment n))"
  using subtable_loop_no_empty [of tables n]
  by (auto simp: buildSubtableOutput_def split: prod.splits)

lemma itemPairs_nonempty:
  "item \<in> set (sorted_set (map fst (map fst kernDict))) \<Longrightarrow> itemPairs kernDict item \<noteq> []"
  by (auto simp: sorted_set_def itemPairs_def filter_empty_conv)

lemma oversized_first_shape:
  assumes "kernDict \<noteq> []"
      and "maxSize \<le> estimate (2 + 2 * getNumberOfKernedGlyphs kerning_d groups_d)
             (fold (absorb groups_d)
                (itemPairs kernDict (hd (sorted_set (map fst (map fst kernDict))))) ([], [], [], []))"
  shows "\<exists>p ps. measuredSubtables_of kernDict kerning_d groups_d maxSize =
                  [] # (hd (sorted_set (map fst (map fst kernDict))) # p) # ps \<and>
                (\<forall>x \<in> set ps. x \<noteq> [])"
proof -
  define cov where "cov = 2 + 2 * getNumberOfKernedGlyphs kerning_d groups_d"
  define items where "items = sorted_set (map fst (map fst kernDict))"
  have "set items \<noteq> {}" using assms(1) by (simp add: items_def sorted_set_def)
  then obtain first others where io: "items = first # others" by (cases items) auto
  have "maxSize \<le> estimate cov
          (fold (absorb groups_d) (itemPairs kernDict (hd items)) ([], [], [], []))"
    using assms(2) unfolding cov_def items_def .
  then have over: "\<not> estimate cov (fold (absorb groups_d) (itemPairs kernDict first) ([], [], [], [])) < maxSize"
    using io by simp
  obtain ms' st' acc' where
    f: "fold (measure_step kernDict groups_d cov maxSize) others ([[]], [first], ([], [], [], [])) =
          (ms', st', acc')"
    by (metis prod_cases3)
  have whole: "fold (measure_step kernDict groups_d cov maxSize) items ([], [], ([], [], [], [])) =
          (ms', st', acc')"
    using f over by (simp add: io measure_step_eq)
  from measure_fold_shape [OF f] obtain p ps where
    shape: "ms' @ [st'] = [[]] @ [[first] @ p] @ ps" and ne: "\<forall>x \<in> set ps. x \<noteq> []"
    by blast
  have "st' = last ([[]] @ [[first] @ p] @ ps)"
    using shape by (metis last_snoc)
  then have "st' \<noteq> []" using ne by (cases ps rule: rev_cases) auto
  then have "measuredSubtables_of kernDict kerning_d groups_d maxSize = ms' @ [st']"
    using whole by (simp add: measuredSubtables_of_def Let_def cov_def items_def)
  then have "measuredSubtables_of kernDict kerning_d groups_d maxSize = [] # (first # p) # ps"
    using shape by simp
  then show ?thesis using ne io by (auto simp: items_def)
qed

text \<open>
  Claim C2, as amended. For a bucket with distinct keys, the pairs of the emitted
  subtables, concatenated in order, are the pairs of the bucket grouped by left item,
  the left items in sorted order: no pair is duplicated, none is dropped, and the left
  items never decrease along the sequence. The value of every entry is what the kerning
  mapping holds for the pair, not what the bucket holds; where kerning and bucket agree
  on every pair of the bucket, the entries are exactly the entries of the bucket.
\<close>

theorem MakeMeasuredSubtables_reconstruction:
  assumes "distinct (map fst kernDict)"
  shows "concat (map (map fst) (MakeMeasuredSubtables kernDict kerning_d groups_d maxSubtableSize)) =
           concat (map (itemPairs kernDict) (sorted_set (map fst (map fst kernDict)))) \<and>
         distinct (concat (map (map fst)
           (MakeMeasuredSubtables kernDict kerning_d groups_d maxSubtableSize))) \<and>
         set (concat (map (map fst)
           (MakeMeasuredSubtables kernDict kerning_d groups_d maxSubtableSize))) =
           set (map fst kernDict) \<and>
         sorted (map fst (concat (map (map fst)
           (MakeMeasuredSubtables kernDict kerning_d groups_d maxSubtableSize)))) \<and>
         (\<forall>(pair, value) \<in> set (concat
             (MakeMeasuredSubtables kernDict kerning_d groups_d maxSubtableSize)).
            value = map_of kerning_d pair) \<and>
         ((\<forall>pair \<in> set (map fst kernDict). map_of kerning_d pair = map_of kernDict pair) \<longrightarrow>
            set (concat (MakeMeasuredSubtables kernDict kerning_d groups_d maxSubtableSize)) =
              (\<lambda>(pair, value). (pair, Some value)) ` set kernDict)"
proof -
  let ?subtables = "MakeMeasuredSubtables kernDict kerning_d groups_d maxSubtableSize"
  let ?pairs = "concat (map (itemPairs kernDict) (sorted_set (map fst (map fst kernDict))))"
  have p: "concat (map (map fst) ?subtables) = ?pairs"
    using assms by (rule subtable_pairs)
  have e: "concat ?subtables = map (\<lambda>p. (p, map_of kerning_d p)) ?pairs"
    using assms by (rule subtable_entries)
  have d: "distinct ?pairs"
    using assms distinct_sorted_set by (rule distinct_itemPairs_concat)
  have s: "set ?pairs = set (map fst kernDict)"
    by (rule all_pairs_covered)
  have o: "sorted (map fst ?pairs)"
    by (rule sorted_itemPairs_concat) (simp add: sorted_set_def)
  have v: "\<forall>(pair, value) \<in> set (concat ?subtables). value = map_of kerning_d pair"
    unfolding e by auto
  have a: "set (concat ?subtables) = (\<lambda>(pair, value). (pair, Some value)) ` set kernDict"
    if agree: "\<forall>pair \<in> set (map fst kernDict). map_of kerning_d pair = map_of kernDict pair"
  proof -
    have "set (concat ?subtables) = (\<lambda>p. (p, map_of kerning_d p)) ` set (map fst kernDict)"
      unfolding e using s by (simp only: set_map)
    also have "\<dots> = (\<lambda>p. (p, map_of kernDict p)) ` set (map fst kernDict)"
      using agree by (intro image_cong) auto
    also have "\<dots> = (\<lambda>x. (fst x, map_of kernDict (fst x))) ` set kernDict"
      by (simp add: image_image)
    also have "\<dots> = (\<lambda>x. (fst x, Some (snd x))) ` set kernDict"
      using assms by (intro image_cong) simp_all
    also have "\<dots> = (\<lambda>(pair, value). (pair, Some value)) ` set kernDict"
      by (simp add: case_prod_beta)
    finally show ?thesis .
  qed
  show ?thesis using p d s o v a by simp
qed

text \<open>
  The theorem at a bucket of two glyph to group pairs that is also the kerning.
\<close>

theorem MakeMeasuredSubtables_reconstruction_witness:
  "distinct (map fst
     [((''T'', ''@MMK_R_O''), Static (- 30)), ((''A'', ''@MMK_R_V''), Static (- 40))]) \<and>
   concat (map (map fst) (MakeMeasuredSubtables
     [((''T'', ''@MMK_R_O''), Static (- 30)), ((''A'', ''@MMK_R_V''), Static (- 40))]
     [((''T'', ''@MMK_R_O''), Static (- 30)), ((''A'', ''@MMK_R_V''), Static (- 40))]
     [(''@MMK_R_O'', [''O'', ''Q'']), (''@MMK_R_V'', [''V'', ''W''])] 8192)) =
   [(''A'', ''@MMK_R_V''), (''T'', ''@MMK_R_O'')] \<and>
   set (concat (MakeMeasuredSubtables
     [((''T'', ''@MMK_R_O''), Static (- 30)), ((''A'', ''@MMK_R_V''), Static (- 40))]
     [((''T'', ''@MMK_R_O''), Static (- 30)), ((''A'', ''@MMK_R_V''), Static (- 40))]
     [(''@MMK_R_O'', [''O'', ''Q'']), (''@MMK_R_V'', [''V'', ''W''])] 8192)) =
   {((''T'', ''@MMK_R_O''), Some (Static (- 30))), ((''A'', ''@MMK_R_V''), Some (Static (- 40)))}"
proof -
  have d: "distinct (map fst
     [((''T'', ''@MMK_R_O''), Static (- 30)), ((''A'', ''@MMK_R_V''), Static (- 40))])"
    by simp
  show ?thesis
    using d MakeMeasuredSubtables_reconstruction [OF d,
        of "[((''T'', ''@MMK_R_O''), Static (- 30)), ((''A'', ''@MMK_R_V''), Static (- 40))]"
           "[(''@MMK_R_O'', [''O'', ''Q'']), (''@MMK_R_V'', [''V'', ''W''])]" 8192]
    by (simp add: itemPairs_def sorted_set_def)
qed

text \<open>
  Claim C2 as stated fails on the values. For the kerning \<^verbatim>\<open>(T, @MMK_R_O): 0\<close>,
  \<^verbatim>\<open>(T, O): -10\<close> the classifier fills the glyph to group bucket with
  \<^verbatim>\<open>(T, @MMK_R_O): -10\<close>; the partitioner, given this bucket and this kerning, emits the
  pair with the value 0 of the kerning, and the entry of the bucket is in no subtable.
\<close>

theorem MakeMeasuredSubtables_value_from_kerning:
  "(case KernProcessor [(''@MMK_R_O'', [''O''])]
           [((''T'', ''@MMK_R_O''), Static 0), ((''T'', ''O''), Static (- 10))] False of
      Inl e \<Rightarrow> False
    | Inr kp \<Rightarrow>
        glyph_group kp = [((''T'', ''@MMK_R_O''), Static (- 10))] \<and>
        kerning kp = [((''T'', ''@MMK_R_O''), Static 0), ((''T'', ''O''), Static (- 10))] \<and>
        groups kp = [(''@MMK_R_O'', [''O''])]) \<and>
   MakeMeasuredSubtables [((''T'', ''@MMK_R_O''), Static (- 10))]
     [((''T'', ''@MMK_R_O''), Static 0), ((''T'', ''O''), Static (- 10))]
     [(''@MMK_R_O'', [''O''])] 8192 =
   [[((''T'', ''@MMK_R_O''), Some (Static 0))]] \<and>
   ((''T'', ''@MMK_R_O''), Some (Static (- 10))) \<notin> set (concat (MakeMeasuredSubtables
     [((''T'', ''@MMK_R_O''), Static (- 10))]
     [((''T'', ''@MMK_R_O''), Static 0), ((''T'', ''O''), Static (- 10))]
     [(''@MMK_R_O'', [''O''])] 8192))"
  by code_simp

text \<open>
  Claim C7, as amended. The partitioner never raises: for a pair of the bucket that the
  kerning mapping does not hold, the subtables hold the pair with the placeholder
  \<^verbatim>\<open>None\<close> that \<^verbatim>\<open>kerning.get(pair)\<close> returns, and with no other value.
\<close>

theorem MakeMeasuredSubtables_default_value:
  assumes "distinct (map fst kernDict)"
      and "pair \<in> set (map fst kernDict)"
      and "map_of kerning_d pair = None"
  shows "(pair, None) \<in> set (concat
           (MakeMeasuredSubtables kernDict kerning_d groups_d maxSubtableSize)) \<and>
         (\<forall>value. (pair, value) \<in> set (concat
             (MakeMeasuredSubtables kernDict kerning_d groups_d maxSubtableSize)) \<longrightarrow>
            value = None)"
proof -
  have "concat (MakeMeasuredSubtables kernDict kerning_d groups_d maxSubtableSize) =
          map (\<lambda>p. (p, map_of kerning_d p))
            (concat (map (itemPairs kernDict) (sorted_set (map fst (map fst kernDict)))))"
    using assms(1) by (rule subtable_entries)
  moreover have "pair \<in> set (concat (map (itemPairs kernDict)
                    (sorted_set (map fst (map fst kernDict)))))"
    using assms(2) all_pairs_covered by blast
  ultimately show ?thesis using assms(3) by auto
qed

text \<open>
  The theorem at a bucket of two pairs, one of them missing from the kerning.
\<close>

theorem MakeMeasuredSubtables_default_value_witness:
  "distinct (map fst [((''T'', ''@MMK_R_O''), Static (- 30)), ((''A'', ''@MMK_R_V''), Static (- 40))]) \<and>
   (''A'', ''@MMK_R_V'') \<in> set (map fst
      [((''T'', ''@MMK_R_O''), Static (- 30)), ((''A'', ''@MMK_R_V''), Static (- 40))]) \<and>
   map_of [((''T'', ''@MMK_R_O''), Static (- 30))] (''A'', ''@MMK_R_V'') = None \<and>
   ((''A'', ''@MMK_R_V''), None) \<in> set (concat (MakeMeasuredSubtables
      [((''T'', ''@MMK_R_O''), Static (- 30)), ((''A'', ''@MMK_R_V''), Static (- 40))]
      [((''T'', ''@MMK_R_O''), Static (- 30))]
      [(''@MMK_R_O'', [''O'', ''Q'']), (''@MMK_R_V'', [''V'', ''W''])] 8192))"
proof -
  have d: "distinct (map fst
     [((''T'', ''@MMK_R_O''), Static (- 30)), ((''A'', ''@MMK_R_V''), Static (- 40))])"
    by simp
  have m: "(''A'', ''@MMK_R_V'') \<in> set (map fst
      [((''T'', ''@MMK_R_O''), Static (- 30)), ((''A'', ''@MMK_R_V''), Static (- 40))])"
    by simp
  have n: "map_of [((''T'', ''@MMK_R_O''), Static (- 30))] (''A'', ''@MMK_R_V'') = None"
    by simp
  show ?thesis
    using d m n MakeMeasuredSubtables_default_value [OF d m n,
        of "[(''@MMK_R_O'', [''O'', ''Q'']), (''@MMK_R_V'', [''V'', ''W''])]" 8192]
    by blast
qed

text \<open>
  Claim C7 as stated fails: with an empty kerning the partitioner returns a subtable,
  and the value of its entry is \<^verbatim>\<open>None\<close>.
\<close>

theorem MakeMeasuredSubtables_silent_default:
  "map_of ([] :: kdict) (''a'', ''b'') = None \<and>
   MakeMeasuredSubtables [((''a'', ''b''), Static 5)] [] [] 8192 = [[((''a'', ''b''), None)]]"
  by (simp add: partitioner_defs)

text \<open>
  Claim C6, as amended. For a non-empty bucket with distinct keys, when the maximum
  size is not above the estimate of the first left item alone, the list of subtables
  starts with one empty subtable, the second subtable starts with the pairs of that
  item (there is at least one), every later subtable is non-empty, and the renderer
  writes no empty subtable.
\<close>

theorem MakeMeasuredSubtables_oversized_first:
  assumes "kernDict \<noteq> []"
      and "distinct (map fst kernDict)"
      and "maxSubtableSize \<le> estimate (2 + 2 * getNumberOfKernedGlyphs kerning_d groups_d)
             (fold (absorb groups_d)
                (itemPairs kernDict (hd (sorted_set (map fst (map fst kernDict))))) ([], [], [], []))"
  shows "(\<exists>more rest.
            MakeMeasuredSubtables kernDict kerning_d groups_d maxSubtableSize =
              [] # (map (\<lambda>pair. (pair, map_of kerning_d pair))
                      (itemPairs kernDict (hd (sorted_set (map fst (map fst kernDict))))) @ more)
                 # rest \<and>
            (\<forall>subtable \<in> set rest. subtable \<noteq> [])) \<and>
         itemPairs kernDict (hd (sorted_set (map fst (map fst kernDict)))) \<noteq> [] \<and>
         PosLines [] \<notin> set (fst (buildSubtableOutput
           (MakeMeasuredSubtables kernDict kerning_d groups_d maxSubtableSize) comment subtablesCreated))"
proof -
  let ?first = "hd (sorted_set (map fst (map fst kernDict)))"
  let ?g = "\<lambda>leftItemList. map (\<lambda>p. (p, map_of kerning_d p))
                  (concat (map (itemPairs kernDict) leftItemList))"
  from oversized_first_shape [OF assms(1) assms(3)] obtain p ps where
    shape: "measuredSubtables_of kernDict kerning_d groups_d maxSubtableSize = [] # (?first # p) # ps"
    and ne: "\<forall>x \<in> set ps. x \<noteq> []"
    by blast
  have items: "concat ([] # (?first # p) # ps) = sorted_set (map fst (map fst kernDict))"
    using measuredSubtables_concat [of kernDict kerning_d groups_d maxSubtableSize] shape by simp
  have first_in: "?first \<in> set (sorted_set (map fst (map fst kernDict)))"
    using items by (metis concat.simps(2) append_Cons list.set_intros(1) self_append_conv2)
  have first_ne: "itemPairs kernDict ?first \<noteq> []"
    using first_in by (rule itemPairs_nonempty)
  have eq: "MakeMeasuredSubtables kernDict kerning_d groups_d maxSubtableSize =
              [] # (map (\<lambda>p. (p, map_of kerning_d p)) (itemPairs kernDict ?first) @ ?g p) # map ?g ps"
    by (simp add: MakeMeasuredSubtables_eq [OF assms(2)] shape)
  have "\<forall>subtable \<in> set (map ?g ps). subtable \<noteq> []"
  proof
    fix subtable assume "subtable \<in> set (map ?g ps)"
    then obtain l where l: "l \<in> set ps" "subtable = ?g l" by auto
    from l(1) ne have "l \<noteq> []" by auto
    then obtain i l' where il: "l = i # l'" by (cases l) auto
    have "set l \<subseteq> set (concat ([] # (?first # p) # ps))"
      using l(1) by auto
    then have "set l \<subseteq> set (sorted_set (map fst (map fst kernDict)))"
      by (simp only: items)
    then have "itemPairs kernDict i \<noteq> []" using il itemPairs_nonempty by auto
    then show "subtable \<noteq> []" using l(2) il by simp
  qed
  then have "\<exists>more rest.
            MakeMeasuredSubtables kernDict kerning_d groups_d maxSubtableSize =
              [] # (map (\<lambda>pair. (pair, map_of kerning_d pair)) (itemPairs kernDict ?first) @ more) # rest \<and>
            (\<forall>subtable \<in> set rest. subtable \<noteq> [])"
    using eq by blast
  then show ?thesis using first_ne buildSubtableOutput_no_empty by blast
qed

text \<open>
  The theorem at a bucket of one pair, whose estimate is 40, with maximum size 40.
\<close>

theorem MakeMeasuredSubtables_oversized_first_witness:
  "[((''a'', ''b''), Static 5)] \<noteq> [] \<and>
   distinct (map fst [((''a'', ''b''), Static 5)]) \<and>
   40 \<le> estimate (2 + 2 * getNumberOfKernedGlyphs [((''a'', ''b''), Static 5)] [])
           (fold (absorb []) (itemPairs [((''a'', ''b''), Static 5)]
              (hd (sorted_set (map fst (map fst [((''a'', ''b''), Static 5)])))))
              ([], [], [], [])) \<and>
   MakeMeasuredSubtables [((''a'', ''b''), Static 5)] [((''a'', ''b''), Static 5)] [] 40 =
     [[], [((''a'', ''b''), Some (Static 5))]] \<and>
   PosLines [] \<notin> set (fst (buildSubtableOutput
     (MakeMeasuredSubtables [((''a'', ''b''), Static 5)] [((''a'', ''b''), Static 5)] [] 40)
     ''# glyph, group:'' 0))"
proof -
  have n: "[((''a'', ''b''), Static 5)] \<noteq> ([] :: kdict)" by simp
  have d: "distinct (map fst [((''a'', ''b''), Static 5)])" by simp
  have o: "40 \<le> estimate (2 + 2 * getNumberOfKernedGlyphs [((''a'', ''b''), Static 5)] [])
           (fold (absorb []) (itemPairs [((''a'', ''b''), Static 5)]
              (hd (sorted_set (map fst (map fst [((''a'', ''b''), Static 5)])))))
              ([], [], [], []))"
    by (simp add: partitioner_defs)
  have e: "MakeMeasuredSubtables [((''a'', ''b''), Static 5)] [((''a'', ''b''), Static 5)] [] 40 =
     [[], [((''a'', ''b''), Some (Static 5))]]"
    by (simp add: partitioner_defs)
  show ?thesis
    using n d o e MakeMeasuredSubtables_oversized_first [OF n d o, of "''# glyph, group:''" 0]
    by blast
qed

text \<open>
  Claim C6 as stated fails: with maximum size 0, below the estimate of the only left
  item, the partitioner emits two subtables, and the first one is empty.
\<close>

theorem MakeMeasuredSubtables_emits_empty_subtable:
  "0 < estimate (2 + 2 * getNumberOfKernedGlyphs [((''a'', ''b''), Static 5)] [])
         (fold (absorb []) (itemPairs [((''a'', ''b''), Static 5)] ''a'') ([], [], [], [])) \<and>
   MakeMeasuredSubtables [((''a'', ''b''), Static 5)] [((''a'', ''b''), Static 5)] [] 0 =
     [[], [((''a'', ''b''), Some (Static 5))]] \<and>
   length (MakeMeasuredSubtables [((''a'', ''b''), Static 5)] [((''a'', ''b''), Static 5)] [] 0) = 2 \<and>
   [] \<in> set (MakeMeasuredSubtables [((''a'', ''b''), Static 5)] [((''a'', ''b''), Static 5)] [] 0)"
  by (simp add: partitioner_defs)

section \<open>The classifier at two inputs\<close>

text \<open>
  Claim C1 says that the number of pairs of the final kerning equals the number of
  processed plus unprocessed pairs. The code at \<^verbatim>\<open>(@MMK_L_A_ARA, b): 5\<close>,
  \<^verbatim>\<open>(c, @MMK_R_B): 3\<close>: the first pair is a right-to-left group to glyph exception,
  the branch that stores it does not append to \<^verbatim>\<open>pairs_processed\<close>, and the check
  reports a mismatch, 2 pairs against 1.
\<close>

theorem KernProcessor_rtl_group_glyph_exception_uncounted:
  "(case KernProcessor [(''@MMK_L_A_ARA'', [''a'']), (''@MMK_R_B'', [''b''])]
           [((''@MMK_L_A_ARA'', ''b''), Static 5), ((''c'', ''@MMK_R_B''), Static 3)] False of
      Inl e \<Rightarrow> False
    | Inr kp \<Rightarrow>
        kerning kp = [((''@MMK_L_A_ARA'', ''b''), Static 5), ((''c'', ''@MMK_R_B''), Static 3)] \<and>
        rtl_group_glyph_exceptions kp = [((''@MMK_L_A_ARA'', ''b''), Static 5)] \<and>
        glyph_group kp = [((''c'', ''@MMK_R_B''), Static 3)] \<and>
        pairs_processed kp = [(''c'', ''@MMK_R_B'')] \<and>
        pairs_unprocessed kp = [] \<and>
        length (kerning kp) = 2 \<and>
        length (pairs_processed kp) + length (pairs_unprocessed kp) = 1 \<and>
        sanityCheck kp)"
  by code_simp

text \<open>
  Claim C3 says that a glyph to group pair with value 0, whose glyph is not grouped on
  the left, goes to no bucket and is recorded as unprocessed. The code at
  \<^verbatim>\<open>(T, @MMK_R_O): 0\<close>, \<^verbatim>\<open>(T, O): -10\<close>: the loop over the members of the group
  overwrites \<^verbatim>\<open>value\<close> with the value of \<^verbatim>\<open>(T, O)\<close>, the zero test reads -10,
  and the pair is stored in the glyph to group bucket with -10.
\<close>

theorem KernProcessor_zero_glyph_group_pair_kept:
  "(case KernProcessor [(''@MMK_R_O'', [''O''])]
           [((''T'', ''@MMK_R_O''), Static 0), ((''T'', ''O''), Static (- 10))] False of
      Inl e \<Rightarrow> False
    | Inr kp \<Rightarrow>
        map_of (kerning kp) (''T'', ''@MMK_R_O'') = Some (Static 0) \<and>
        grouped_left kp = Some [] \<and>
        glyph_group kp = [((''T'', ''@MMK_R_O''), Static (- 10))] \<and>
        pairs_unprocessed kp = [] \<and>
        pairs_processed kp = [(''T'', ''@MMK_R_O''), (''T'', ''O'')])"
  by code_simp

section \<open>Properties of the classifier\<close>

lemma bindE_Inr [simp]: "bindE (Inr x) f = f x"
  by (simp add: bindE_def)

lemma bindE_Inl [simp]: "bindE (Inl e) f = Inl e"
  by (simp add: bindE_def)

lemma bindE_eq_Inr: "bindE m f = Inr y \<longleftrightarrow> (\<exists>x. m = Inr x \<and> f x = Inr y)"
  by (cases m) simp_all

lemma subscript_eq_Inr: "subscript d k = Inr v \<longleftrightarrow> map_of d k = Some v"
  by (simp add: subscript_def split: option.splits)

lemma subscript_present: "k \<in> set (map fst d) \<Longrightarrow> \<exists>v. subscript d k = Inr v \<and> map_of d k = Some v"
  by (cases "map_of d k") (auto simp: subscript_def map_of_eq_None_iff)

lemma foldE_invariant:
  assumes "foldE f xs s = Inr s'" and "P s"
      and "\<And>x t t'. x \<in> set xs \<Longrightarrow> P t \<Longrightarrow> f x t = Inr t' \<Longrightarrow> P t'"
  shows "P s'"
  using assms
proof (induction xs arbitrary: s)
  case Nil then show ?case by simp
next
  case (Cons x xs)
  from Cons.prems(1) obtain t where t: "f x s = Inr t" "foldE f xs t = Inr s'"
    by (auto simp: bindE_eq_Inr)
  have "P t" using Cons.prems(2,3) t(1) by auto
  then show ?case using Cons.IH [OF t(2)] Cons.prems(3) by auto
qed

lemma filterE_total:
  assumes "\<forall>x \<in> set xs. t x = Inr (P x)"
  shows "filterE t xs = Inr (filter P xs)"
  using assms by (induction xs) auto

lemma delete_as_filter: "AList.delete p K = filter (\<lambda>(q, v). q \<noteq> p) K"
  by (induction K) auto

lemma keys_delete: "set (map fst (AList.delete p K)) = set (map fst K) - {p}"
  by (induction K) auto

lemma filter_keep_delete:
  assumes "\<not> A p"
  shows "filter (\<lambda>(q, v). q \<notin> set ps \<or> A q) (AList.delete p K) =
         filter (\<lambda>(q, v). q \<notin> set (p # ps) \<or> A q) K"
  unfolding delete_as_filter filter_filter using assms by (intro filter_cong) auto

lemma filter_keep_same:
  assumes "A p"
  shows "filter (\<lambda>(q, v). q \<notin> set ps \<or> A q) K =
         filter (\<lambda>(q, v). q \<notin> set (p # ps) \<or> A q) K"
  using assms by (intro filter_cong) auto

lemma strip_pass:
  assumes "distinct ps" and "set ps \<subseteq> set (map fst (kerning s))"
      and "distinct (map fst (kerning s))"
  shows "\<exists>K P. foldE strip_step ps s = Inr (s\<lparr>kerning := K, predefined_exceptions := P\<rparr>) \<and>
           K = filter (\<lambda>(p, v). p \<notin> set ps \<or> \<not> has_ignore_tag p \<and> \<not> has_exception_tag p)
                 (kerning s) \<and>
           (\<forall>p \<in> set ps. \<not> has_ignore_tag p \<and> has_exception_tag p \<longrightarrow>
              map_of P p = map_of (kerning s) p) \<and>
           (\<forall>p. p \<notin> set ps \<longrightarrow> map_of P p = map_of (predefined_exceptions s) p)"
  using assms
proof (induction ps arbitrary: s)
  case Nil
  have "foldE strip_step [] s = Inr (s\<lparr>kerning := kerning s, predefined_exceptions := predefined_exceptions s\<rparr>)"
    by simp
  then show ?case by fastforce
next
  case (Cons p ps)
  let ?K = "kerning s"
  let ?keep = "\<lambda>ps. (\<lambda>(q, v). q \<notin> set ps \<or> \<not> has_ignore_tag q \<and> \<not> has_exception_tag q)"
  have pin: "p \<in> set (map fst ?K)" using Cons.prems(2) by simp
  from subscript_present [OF pin] obtain v where v: "subscript ?K p = Inr v" "map_of ?K p = Some v"
    by auto
  have pnot: "p \<notin> set ps" and dps: "distinct ps" using Cons.prems(1) by simp_all
  have "set ps \<subseteq> set (map fst ?K) - {p}"
    using Cons.prems(2) pnot by auto
  then have sub_del: "set ps \<subseteq> set (map fst (AList.delete p ?K))"
    by (simp only: keys_delete)
  have dist_del: "distinct (map fst (AList.delete p ?K))"
    using Cons.prems(3) by (simp add: distinct_delete)
  have map_del: "\<And>q. q \<noteq> p \<Longrightarrow> map_of (AList.delete p ?K) q = map_of ?K q"
    by (simp add: delete_conv')
  have filt_del: "\<not> (\<not> has_ignore_tag p \<and> \<not> has_exception_tag p) \<Longrightarrow>
      filter (?keep ps) (AList.delete p ?K) = filter (?keep (p # ps)) ?K"
    by (rule filter_keep_delete)
  consider (ign) "has_ignore_tag p" | (exc) "\<not> has_ignore_tag p" "has_exception_tag p"
    | (plain) "\<not> has_ignore_tag p" "\<not> has_exception_tag p" by blast
  then show ?case
  proof cases
    case ign
    define s1 where "s1 = s\<lparr>kerning := AList.delete p ?K\<rparr>"
    have step: "strip_step p s = Inr s1"
      using ign v(1) by (simp add: strip_step_def has_ignore_tag_def s1_def)
    have k1: "kerning s1 = AList.delete p ?K" and p1: "predefined_exceptions s1 = predefined_exceptions s"
      by (simp_all add: s1_def)
    have "distinct ps" "set ps \<subseteq> set (map fst (kerning s1))" "distinct (map fst (kerning s1))"
      using dps sub_del dist_del by (simp_all add: k1)
    from Cons.IH [OF this] obtain K P where r:
      "foldE strip_step ps s1 = Inr (s1\<lparr>kerning := K, predefined_exceptions := P\<rparr>)"
      "K = filter (?keep ps) (kerning s1)"
      "\<forall>q \<in> set ps. \<not> has_ignore_tag q \<and> has_exception_tag q \<longrightarrow> map_of P q = map_of (kerning s1) q"
      "\<forall>q. q \<notin> set ps \<longrightarrow> map_of P q = map_of (predefined_exceptions s1) q"
      by blast
    have same: "s1\<lparr>kerning := K, predefined_exceptions := P\<rparr> = s\<lparr>kerning := K, predefined_exceptions := P\<rparr>"
      by (simp add: s1_def)
    have a: "foldE strip_step (p # ps) s = Inr (s\<lparr>kerning := K, predefined_exceptions := P\<rparr>)"
      using step r(1) same by simp
    have b: "K = filter (?keep (p # ps)) ?K"
      unfolding r(2) k1 using ign by (intro filt_del) simp
    have c: "\<forall>q \<in> set (p # ps). \<not> has_ignore_tag q \<and> has_exception_tag q \<longrightarrow> map_of P q = map_of ?K q"
    proof
      fix q assume q: "q \<in> set (p # ps)"
      show "\<not> has_ignore_tag q \<and> has_exception_tag q \<longrightarrow> map_of P q = map_of ?K q"
      proof (cases "q = p")
        case True then show ?thesis using ign by simp
      next
        case False
        then have "q \<in> set ps" using q by simp
        then show ?thesis using r(3) False map_del k1 by simp
      qed
    qed
    have d: "\<forall>q. q \<notin> set (p # ps) \<longrightarrow> map_of P q = map_of (predefined_exceptions s) q"
      using r(4) p1 by simp
    show ?thesis using a b c d by blast
  next
    case exc
    define s1 where "s1 = s\<lparr>predefined_exceptions := AList.update p v (predefined_exceptions s),
                             kerning := AList.delete p ?K\<rparr>"
    have step: "strip_step p s = Inr s1"
      using exc v(1) by (simp add: strip_step_def has_ignore_tag_def has_exception_tag_def s1_def)
    have k1: "kerning s1 = AList.delete p ?K"
      and p1: "predefined_exceptions s1 = AList.update p v (predefined_exceptions s)"
      by (simp_all add: s1_def)
    have "distinct ps" "set ps \<subseteq> set (map fst (kerning s1))" "distinct (map fst (kerning s1))"
      using dps sub_del dist_del by (simp_all add: k1)
    from Cons.IH [OF this] obtain K P where r:
      "foldE strip_step ps s1 = Inr (s1\<lparr>kerning := K, predefined_exceptions := P\<rparr>)"
      "K = filter (?keep ps) (kerning s1)"
      "\<forall>q \<in> set ps. \<not> has_ignore_tag q \<and> has_exception_tag q \<longrightarrow> map_of P q = map_of (kerning s1) q"
      "\<forall>q. q \<notin> set ps \<longrightarrow> map_of P q = map_of (predefined_exceptions s1) q"
      by blast
    have same: "s1\<lparr>kerning := K, predefined_exceptions := P\<rparr> = s\<lparr>kerning := K, predefined_exceptions := P\<rparr>"
      by (simp add: s1_def)
    have a: "foldE strip_step (p # ps) s = Inr (s\<lparr>kerning := K, predefined_exceptions := P\<rparr>)"
      using step r(1) same by simp
    have b: "K = filter (?keep (p # ps)) ?K"
      unfolding r(2) k1 using exc by (intro filt_del) simp
    have "map_of P p = map_of (predefined_exceptions s1) p"
      using r(4) pnot by blast
    then have pv: "map_of P p = Some v"
      by (simp add: p1 update_conv')
    have c: "\<forall>q \<in> set (p # ps). \<not> has_ignore_tag q \<and> has_exception_tag q \<longrightarrow> map_of P q = map_of ?K q"
    proof
      fix q assume q: "q \<in> set (p # ps)"
      show "\<not> has_ignore_tag q \<and> has_exception_tag q \<longrightarrow> map_of P q = map_of ?K q"
      proof (cases "q = p")
        case True then show ?thesis using pv v(2) by simp
      next
        case False
        then have "q \<in> set ps" using q by simp
        then show ?thesis using r(3) False map_del k1 by simp
      qed
    qed
    have d: "\<forall>q. q \<notin> set (p # ps) \<longrightarrow> map_of P q = map_of (predefined_exceptions s) q"
      using r(4) p1 by (simp add: update_conv')
    show ?thesis using a b c d by blast
  next
    case plain
    have step: "strip_step p s = Inr s"
      using plain by (simp add: strip_step_def has_ignore_tag_def has_exception_tag_def)
    have "distinct ps" "set ps \<subseteq> set (map fst (kerning s))" "distinct (map fst (kerning s))"
      using dps Cons.prems by simp_all
    from Cons.IH [OF this] obtain K P where r:
      "foldE strip_step ps s = Inr (s\<lparr>kerning := K, predefined_exceptions := P\<rparr>)"
      "K = filter (?keep ps) (kerning s)"
      "\<forall>q \<in> set ps. \<not> has_ignore_tag q \<and> has_exception_tag q \<longrightarrow> map_of P q = map_of (kerning s) q"
      "\<forall>q. q \<notin> set ps \<longrightarrow> map_of P q = map_of (predefined_exceptions s) q"
      by blast
    have a: "foldE strip_step (p # ps) s = Inr (s\<lparr>kerning := K, predefined_exceptions := P\<rparr>)"
      using step r(1) by simp
    have b: "K = filter (?keep (p # ps)) ?K"
      unfolding r(2) using plain by (intro filter_keep_same) simp
    have c: "\<forall>q \<in> set (p # ps). \<not> has_ignore_tag q \<and> has_exception_tag q \<longrightarrow> map_of P q = map_of ?K q"
      using r(3) plain by auto
    have d: "\<forall>q. q \<notin> set (p # ps) \<longrightarrow> map_of P q = map_of (predefined_exceptions s) q"
      using r(4) by simp
    show ?thesis using a b c d by blast
  qed
qed

lemma bindE_InrE:
  assumes "bindE m f = Inr y"
  obtains x where "m = Inr x" and "f x = Inr y"
  using assms by (auto simp: bindE_eq_Inr)

lemma add_glyph_glyph_exception_context [simp]:
  "context_of (add_glyph_glyph_exception r p v s) = context_of s"
  by (simp add: add_glyph_glyph_exception_def context_of_def)

lemma add_glyph_group_exception_context [simp]:
  "context_of (add_glyph_group_exception r p v s) = context_of s"
  by (simp add: add_glyph_group_exception_def context_of_def)

lemma add_glyph_group_context [simp]:
  "context_of (add_glyph_group r p v s) = context_of s"
  by (simp add: add_glyph_group_def context_of_def)

lemma add_group_glyph_exception_context [simp]:
  "context_of (add_group_glyph_exception r p v s) = context_of s"
  by (simp add: add_group_glyph_exception_def context_of_def)

lemma add_group_group_context [simp]:
  "context_of (fst (add_group_group r p v l g (s, e, re))) = context_of s"
  by (simp add: add_group_group_def context_of_def)

lemma add_glyph_glyph_context [simp]:
  "context_of (add_glyph_glyph gl gr r p v s) = context_of s"
  by (simp add: add_glyph_glyph_def context_of_def add_glyph_glyph_exception_def Let_def)

lemma member_step_context:
  "member_step g2g rtl glyph m (v, s) = Inr (v', s') \<Longrightarrow> context_of s' = context_of s"
  by (auto simp: member_step_def bindE_eq_Inr Let_def split: if_splits)

lemma member_loop_context:
  assumes "foldE (member_step g2g rtl glyph) ms (v, s) = Inr (v', s')"
  shows "context_of s' = context_of s"
proof -
  have "context_of (snd (v', s')) = context_of s"
    using assms
  proof (rule foldE_invariant [where P = "\<lambda>t. context_of (snd t) = context_of s"])
    show "context_of (snd (v, s)) = context_of s" by simp
  next
    fix x t t'
    assume "context_of (snd t) = context_of s" "member_step g2g rtl glyph x t = Inr t'"
    then show "context_of (snd t') = context_of s"
      using member_step_context [of g2g rtl glyph x "fst t" "snd t" "fst t'" "snd t'"] by simp
  qed
  then show ?thesis by simp
qed

lemma glyph_group_step_context:
  assumes "glyph_group_step g2g pair s = Inr s'"
  shows "context_of s' = context_of s"
proof -
  have "case glyph_group_step g2g pair s of Inl e \<Rightarrow> True
        | Inr t \<Rightarrow> context_of t = context_of s"
    by (cases pair)
       (auto simp: glyph_group_step_def Let_def bindE_def
             split: sum.splits if_splits dest: member_loop_context)
  then show ?thesis using assms by simp
qed

lemma add_group_group_context_dest:
  "add_group_group r p v l g (s, e, re) = (s', e', re') \<Longrightarrow> context_of s' = context_of s"
  using add_group_group_context [of r p v l g s e re] by simp

lemma group_item_step_context:
  assumes "group_item_step pair (s, e, r) = Inr (s', e', r')"
  shows "context_of s' = context_of s"
proof -
  have "case group_item_step pair (s, e, r) of Inl e \<Rightarrow> True
        | Inr t \<Rightarrow> context_of (fst t) = context_of s"
    by (cases pair)
       (auto simp: group_item_step_def Let_def bindE_def
             split: sum.splits if_splits option.splits
             dest: add_group_group_context_dest)
  then show ?thesis using assms by simp
qed

lemma exception_step_context: "exception_step pair s = Inr s' \<Longrightarrow> context_of s' = context_of s"
  by (auto simp: exception_step_def bindE_eq_Inr)

lemma rtl_exception_step_context:
  "rtl_exception_step pair s = Inr s' \<Longrightarrow> context_of s' = context_of s"
  by (auto simp: rtl_exception_step_def bindE_eq_Inr)

lemma glyph_glyph_step_context:
  "glyph_glyph_step pair s = Inr s' \<Longrightarrow> context_of s' = context_of s"
  by (auto simp: glyph_glyph_step_def bindE_eq_Inr Let_def)

lemma foldE_context:
  assumes "foldE f xs s = Inr s'"
      and "\<And>x t t'. f x t = Inr t' \<Longrightarrow> context_of t' = context_of t"
  shows "context_of s' = context_of s"
  using assms(1)
proof (rule foldE_invariant [where P = "\<lambda>t. context_of t = context_of s"])
  show "context_of s = context_of s" by simp
next
  fix x t t'
  assume "context_of t = context_of s" "f x t = Inr t'"
  then show "context_of t' = context_of s" using assms(2) by fastforce
qed

lemma group_item_loop_context:
  assumes "foldE group_item_step xs (s, e, r) = Inr (s', e', r')"
  shows "context_of s' = context_of s"
proof -
  have "context_of (fst (s', e', r')) = context_of s"
    using assms
  proof (rule foldE_invariant [where P = "\<lambda>t. context_of (fst t) = context_of s"])
    show "context_of (fst (s, e, r)) = context_of s" by simp
  next
    fix x t t'
    assume a: "context_of (fst t) = context_of s" "group_item_step x t = Inr t'"
    obtain t1 t2 t3 where t: "t = (t1, t2, t3)" by (cases t)
    obtain u1 u2 u3 where u: "t' = (u1, u2, u3)" by (cases t')
    show "context_of (fst t') = context_of s"
      using a group_item_step_context [of x t1 t2 t3 u1 u2 u3] by (simp add: t u)
  qed
  then show ?thesis by simp
qed

lemma findExceptions_stages:
  assumes "findExceptions s0 = Inr s'"
  obtains s1 gg gc ci s2 s3 e re s5 s6 where
    "foldE strip_step (rev (map fst (kerning s0))) s0 = Inr s1"
    "filterE is_glyph_2_glyph (map fst (kerning s1)) = Inr gg"
    "filterE is_glyph_2_group (map fst (kerning s1)) = Inr gc"
    "filterE is_group_2_item (map fst (kerning s1)) = Inr ci"
    "foldE (glyph_group_step (sort gg)) (sort gc) s1 = Inr s2"
    "foldE group_item_step (sort ci) (s2, [], []) = Inr (s3, e, re)"
    "foldE exception_step (filter (\<lambda>p. p \<in> set e) (sort gg))
       (s3\<lparr>exceptionPairs := filter (\<lambda>p. p \<in> set e) (sort gg),
           RTLexceptionPairs := filter (\<lambda>p. p \<in> set re) (sort gg)\<rparr>) = Inr s5"
    "foldE rtl_exception_step (RTLexceptionPairs s5) s5 = Inr s6"
    "foldE glyph_glyph_step (sort gg) s6 = Inr s'"
  using assms unfolding findExceptions_def Let_def
  apply (elim bindE_InrE)
  apply (simp split: prod.splits)
  apply (elim bindE_InrE)
  apply blast
  done

lemma findExceptions_context:
  assumes "findExceptions s0 = Inr s'"
  obtains s1 where "foldE strip_step (rev (map fst (kerning s0))) s0 = Inr s1"
    and "context_of s' = context_of s1"
proof -
  from assms obtain s1 gg gc ci s2 s3 e re s5 s6 where st:
    "foldE strip_step (rev (map fst (kerning s0))) s0 = Inr s1"
    "foldE (glyph_group_step (sort gg)) (sort gc) s1 = Inr s2"
    "foldE group_item_step (sort ci) (s2, [], []) = Inr (s3, e, re)"
    "foldE exception_step (filter (\<lambda>p. p \<in> set e) (sort gg))
       (s3\<lparr>exceptionPairs := filter (\<lambda>p. p \<in> set e) (sort gg),
           RTLexceptionPairs := filter (\<lambda>p. p \<in> set re) (sort gg)\<rparr>) = Inr s5"
    "foldE rtl_exception_step (RTLexceptionPairs s5) s5 = Inr s6"
    "foldE glyph_glyph_step (sort gg) s6 = Inr s'"
    by (rule findExceptions_stages)
  have c2: "context_of s2 = context_of s1"
    using st(2) glyph_group_step_context by (rule foldE_context)
  have c3: "context_of s3 = context_of s2"
    using st(3) by (rule group_item_loop_context)
  have c4: "context_of (s3\<lparr>exceptionPairs := filter (\<lambda>p. p \<in> set e) (sort gg),
           RTLexceptionPairs := filter (\<lambda>p. p \<in> set re) (sort gg)\<rparr>) = context_of s3"
    by (simp add: context_of_def)
  have c5: "context_of s5 = context_of (s3\<lparr>exceptionPairs := filter (\<lambda>p. p \<in> set e) (sort gg),
           RTLexceptionPairs := filter (\<lambda>p. p \<in> set re) (sort gg)\<rparr>)"
    using st(4) exception_step_context by (rule foldE_context)
  have c6: "context_of s6 = context_of s5"
    using st(5) rtl_exception_step_context by (rule foldE_context)
  have c7: "context_of s' = context_of s6"
    using st(6) glyph_glyph_step_context by (rule foldE_context)
  have "context_of s' = context_of s1" using c2 c3 c4 c5 c6 c7 by simp
  then show ?thesis using st(1) that by blast
qed

lemma strip_all_keys:
  assumes "distinct (map fst (kerning s0))"
  obtains K P where
    "foldE strip_step (rev (map fst (kerning s0))) s0 = Inr (s0\<lparr>kerning := K, predefined_exceptions := P\<rparr>)"
    "K = filter (\<lambda>(p, v). \<not> has_ignore_tag p \<and> \<not> has_exception_tag p) (kerning s0)"
    "\<forall>p \<in> set (map fst (kerning s0)). \<not> has_ignore_tag p \<and> has_exception_tag p \<longrightarrow>
       map_of P p = map_of (kerning s0) p"
proof -
  have "distinct (rev (map fst (kerning s0)))" using assms by simp
  moreover have "set (rev (map fst (kerning s0))) \<subseteq> set (map fst (kerning s0))" by simp
  ultimately obtain K P where r:
    "foldE strip_step (rev (map fst (kerning s0))) s0 = Inr (s0\<lparr>kerning := K, predefined_exceptions := P\<rparr>)"
    "K = filter (\<lambda>(p, v). p \<notin> set (rev (map fst (kerning s0))) \<or> \<not> has_ignore_tag p \<and> \<not> has_exception_tag p) (kerning s0)"
    "\<forall>p \<in> set (rev (map fst (kerning s0))). \<not> has_ignore_tag p \<and> has_exception_tag p \<longrightarrow>
       map_of P p = map_of (kerning s0) p"
    using strip_pass [of "rev (map fst (kerning s0))" s0] assms by blast
  have "K = filter (\<lambda>(p, v). \<not> has_ignore_tag p \<and> \<not> has_exception_tag p) (kerning s0)"
    unfolding r(2) by (rule filter_cong) (auto simp: image_iff)
  then show ?thesis using r(1,3) that by simp
qed

text \<open>
  No step of the classification writes \<^verbatim>\<open>rtl_predefined_exceptions\<close>: the strip loop
  of \<^verbatim>\<open>_findExceptions\<close> stores every pair with the exception marker in
  \<^verbatim>\<open>predefined_exceptions\<close> without a call of \<^verbatim>\<open>_isRTL\<close>, and the bucket that
  \<^verbatim>\<open>__init__\<close> creates empty is empty in every processor.
\<close>

lemma strip_step_rtl_predefined_exceptions:
  "strip_step pair s = Inr t \<Longrightarrow> rtl_predefined_exceptions t = rtl_predefined_exceptions s"
  by (auto simp: strip_step_def bindE_eq_Inr split: if_splits)

lemma findExceptions_rtl_predefined_exceptions:
  assumes "findExceptions s0 = Inr s'"
  shows "rtl_predefined_exceptions s' = rtl_predefined_exceptions s0"
proof -
  from assms obtain s1 where
    s1: "foldE strip_step (rev (map fst (kerning s0))) s0 = Inr s1"
    and ctx: "context_of s' = context_of s1"
    by (rule findExceptions_context)
  have "rtl_predefined_exceptions s1 = rtl_predefined_exceptions s0"
    by (rule foldE_invariant [OF s1, where P = "\<lambda>t. rtl_predefined_exceptions t = rtl_predefined_exceptions s0"])
       (simp_all add: strip_step_rtl_predefined_exceptions)
  then show ?thesis using ctx by (simp add: context_of_def)
qed

lemma new_processor_rtl_predefined_exceptions:
  "rtl_predefined_exceptions (new_processor ref_groups groups_d kerning_d) = []"
  by (simp add: new_processor_def)

lemma grouped_glyphs_rtl_predefined_exceptions:
  assumes "(if c then bindE X (\<lambda>(gl, gr). Inr (s0\<lparr>grouped_left := Some gl, grouped_right := Some gr\<rparr>))
            else Inr s0) = Inr s1"
  shows "rtl_predefined_exceptions s1 = rtl_predefined_exceptions s0"
  using assms by (auto simp: bindE_eq_Inr split: if_splits)

lemma group_order_rtl_predefined_exceptions:
  assumes "(if c then Inr (s2\<lparr>group_order := x\<rparr>) else Inr s2) = Inr kp"
  shows "rtl_predefined_exceptions kp = rtl_predefined_exceptions s2"
  using assms by (auto split: if_splits)

lemma KernProcessor_rtl_predefined_exceptions:
  assumes "KernProcessor groups_d kerning_d option_dissolve = Inr kp"
  shows "rtl_predefined_exceptions kp = []"
proof -
  let ?ref = "filter (\<lambda>(group, glyph_list). \<not> isKerningGroup group) groups_d"
  from assms obtain sk where sk: "sanitize_kerning groups_d kerning_d = Inr sk"
    and r1: "bindE (get_used_groups sk) (\<lambda>used_group_names.
      let used_groups = used_groups_of groups_d used_group_names;
          s0 = (if used_groups \<noteq> [] \<and> option_dissolve then
                  (case dissolveSingleGroups used_groups sk of
                     (dissolved_groups, dissolved_kerning) \<Rightarrow>
                       new_processor ?ref (remap_groups dissolved_groups)
                         (remap_kerning dissolved_kerning))
                else new_processor ?ref (remap_groups used_groups)
                       (remap_kerning sk))
      in
      bindE (if used_groups \<noteq> [] then
               bindE (getAllGroupedGlyphs (groups s0) (kerning s0)) (\<lambda>(gl, gr).
                 Inr (s0\<lparr>grouped_left := Some gl, grouped_right := Some gr\<rparr>))
             else Inr s0) (\<lambda>s1.
      bindE (findExceptions s1) (\<lambda>s2.
        if kerning s2 \<noteq> []
        then Inr (s2\<lparr>group_order := Some (sort (map fst (groups s2)))\<rparr>)
        else Inr s2))) = Inr kp"
    unfolding KernProcessor_def Let_def by (rule bindE_InrE)
  from r1 obtain un where un: "get_used_groups sk = Inr un"
    and r2: "(let used_groups = used_groups_of groups_d un;
          s0 = (if used_groups \<noteq> [] \<and> option_dissolve then
                  (case dissolveSingleGroups used_groups sk of
                     (dissolved_groups, dissolved_kerning) \<Rightarrow>
                       new_processor ?ref (remap_groups dissolved_groups)
                         (remap_kerning dissolved_kerning))
                else new_processor ?ref (remap_groups used_groups)
                       (remap_kerning sk))
      in
      bindE (if used_groups \<noteq> [] then
               bindE (getAllGroupedGlyphs (groups s0) (kerning s0)) (\<lambda>(gl, gr).
                 Inr (s0\<lparr>grouped_left := Some gl, grouped_right := Some gr\<rparr>))
             else Inr s0) (\<lambda>s1.
      bindE (findExceptions s1) (\<lambda>s2.
        if kerning s2 \<noteq> []
        then Inr (s2\<lparr>group_order := Some (sort (map fst (groups s2)))\<rparr>)
        else Inr s2))) = Inr kp"
    by (rule bindE_InrE)
  define ug where "ug = used_groups_of groups_d un"
  define s0 where "s0 = (if ug \<noteq> [] \<and> option_dissolve then
                  (case dissolveSingleGroups ug sk of
                     (dissolved_groups, dissolved_kerning) \<Rightarrow>
                       new_processor ?ref (remap_groups dissolved_groups)
                         (remap_kerning dissolved_kerning))
                else new_processor ?ref (remap_groups ug)
                       (remap_kerning sk))"
  have s0_rtl: "rtl_predefined_exceptions s0 = []"
    unfolding s0_def by (simp add: new_processor_rtl_predefined_exceptions split: prod.splits)
  have r3: "bindE (if ug \<noteq> [] then
               bindE (getAllGroupedGlyphs (groups s0) (kerning s0)) (\<lambda>(gl, gr).
                 Inr (s0\<lparr>grouped_left := Some gl, grouped_right := Some gr\<rparr>))
             else Inr s0) (\<lambda>s1.
      bindE (findExceptions s1) (\<lambda>s2.
        if kerning s2 \<noteq> []
        then Inr (s2\<lparr>group_order := Some (sort (map fst (groups s2)))\<rparr>)
        else Inr s2)) = Inr kp"
    using r2 unfolding Let_def ug_def [symmetric] s0_def [symmetric] .
  from r3 obtain s1 where s1: "(if ug \<noteq> [] then
               bindE (getAllGroupedGlyphs (groups s0) (kerning s0)) (\<lambda>(gl, gr).
                 Inr (s0\<lparr>grouped_left := Some gl, grouped_right := Some gr\<rparr>))
             else Inr s0) = Inr s1"
    and r4: "bindE (findExceptions s1) (\<lambda>s2.
        if kerning s2 \<noteq> []
        then Inr (s2\<lparr>group_order := Some (sort (map fst (groups s2)))\<rparr>)
        else Inr s2) = Inr kp"
    by (rule bindE_InrE)
  from r4 obtain s2 where s2: "findExceptions s1 = Inr s2"
    and r5: "(if kerning s2 \<noteq> []
        then Inr (s2\<lparr>group_order := Some (sort (map fst (groups s2)))\<rparr>)
        else Inr s2) = (Inr kp :: py_error + kern_processor)"
    by (rule bindE_InrE)
  have "rtl_predefined_exceptions kp = rtl_predefined_exceptions s2"
    using r5 by (rule group_order_rtl_predefined_exceptions)
  also have "\<dots> = rtl_predefined_exceptions s1"
    using s2 by (rule findExceptions_rtl_predefined_exceptions)
  also have "\<dots> = rtl_predefined_exceptions s0"
    using s1 by (rule grouped_glyphs_rtl_predefined_exceptions)
  finally show ?thesis using s0_rtl by simp
qed

text \<open>
  What the strip loop does with a pair that has the exception marker, and whose left
  item has no ignore marker: the pair leaves the kerning and is held, with its value as
  it was, by \<^verbatim>\<open>predefined_exceptions\<close>, whatever the RTL test says of it. The renderer
  hands that bucket to \<^verbatim>\<open>_dict2pos\<close> with minimum 0 and \<^verbatim>\<open>enum\<close> set, so the pair
  yields an \<^verbatim>\<open>enum pos\<close> line whatever its value: it is never trimmed.
\<close>

lemma findExceptions_stores_in_ltr_bucket:
  assumes "distinct (map fst (kerning s0))"
      and "findExceptions s0 = Inr s'"
      and "(pair, value) \<in> set (kerning s0)"
      and "\<not> str_contains tag_ignore (fst pair)"
      and "str_contains tag_exception (fst pair) \<or> str_contains tag_exception (snd pair)"
  shows "pair \<notin> set (map fst (kerning s')) \<and>
         map_of (predefined_exceptions s') pair = Some value \<and>
         rtl_predefined_exceptions s' = rtl_predefined_exceptions s0 \<and>
         hd (LTRorder minKern s') =
           (predefined_exceptions s', 0, CHR 0x0A # ''# pre-defined exceptions:'', True) \<and>
         dict2pos_line MM write_trimmed_pairs 0 True value = Inr EnumLine"
proof -
  from assms(2) obtain s1 where
    s1: "foldE strip_step (rev (map fst (kerning s0))) s0 = Inr s1"
    and ctx: "context_of s' = context_of s1"
    by (rule findExceptions_context)
  from assms(1) obtain K P where kp:
    "foldE strip_step (rev (map fst (kerning s0))) s0 = Inr (s0\<lparr>kerning := K, predefined_exceptions := P\<rparr>)"
    "K = filter (\<lambda>(p, v). \<not> has_ignore_tag p \<and> \<not> has_exception_tag p) (kerning s0)"
    "\<forall>p \<in> set (map fst (kerning s0)). \<not> has_ignore_tag p \<and> has_exception_tag p \<longrightarrow>
       map_of P p = map_of (kerning s0) p"
    by (rule strip_all_keys)
  have "s1 = s0\<lparr>kerning := K, predefined_exceptions := P\<rparr>" using s1 kp(1) by simp
  then have k': "kerning s' = K" and p': "predefined_exceptions s' = P"
    using ctx by (simp_all add: context_of_def)
  have tags: "\<not> has_ignore_tag pair" "has_exception_tag pair"
    using assms(4,5) by (simp_all add: has_ignore_tag_def has_exception_tag_def)
  have gone: "pair \<notin> set (map fst (kerning s'))"
    unfolding k' kp(2) using tags by auto
  have "pair \<in> set (map fst (kerning s0))" using assms(3) by force
  then have "map_of P pair = map_of (kerning s0) pair" using kp(3) tags by blast
  also have "\<dots> = Some value" using assms(1,3) by simp
  finally have kept: "map_of (predefined_exceptions s') pair = Some value" by (simp add: p')
  have row: "hd (LTRorder minKern s') =
           (predefined_exceptions s', 0, CHR 0x0A # ''# pre-defined exceptions:'', True)"
    by (simp add: LTRorder_def)
  have line: "dict2pos_line MM write_trimmed_pairs 0 True value = Inr EnumLine"
    by (simp add: dict2pos_line_def)
  have rtl: "rtl_predefined_exceptions s' = rtl_predefined_exceptions s0"
    using assms(2) by (rule findExceptions_rtl_predefined_exceptions)
  show ?thesis using gone kept rtl row line by blast
qed

text \<open>
  Claim C4 says that a pair with the exception marker goes to the LTR bucket or to the
  RTL bucket of the predefined exceptions according to the RTL test. The code at
  \<^verbatim>\<open>(EXC_T, @MMK_R_O_ARA): 2\<close>, \<^verbatim>\<open>(A, @MMK_R_O_ARA): -30\<close>: both pairs pass the RTL
  test, by the tag \<^verbatim>\<open>_ARA\<close>. The pair with the exception marker is removed from the
  kerning with its value 2, and is stored in \<^verbatim>\<open>predefined_exceptions\<close>, the LTR bucket;
  \<^verbatim>\<open>rtl_predefined_exceptions\<close> stays empty, while the other pair goes to the RTL glyph
  to group bucket.
\<close>

theorem KernProcessor_rtl_predefined_exception_in_ltr_bucket:
  "(case KernProcessor [(''@MMK_R_O_ARA'', [''O''])]
           [((''EXC_T'', ''@MMK_R_O_ARA''), Static 2), ((''A'', ''@MMK_R_O_ARA''), Static (- 30))]
           False of
      Inl e \<Rightarrow> False
    | Inr kp \<Rightarrow>
        str_contains tag_exception ''EXC_T'' \<and>
        \<not> str_contains tag_ignore ''EXC_T'' \<and>
        isRTL (reference_groups kp) (''EXC_T'', ''@MMK_R_O_ARA'') \<and>
        isRTL (reference_groups kp) (''A'', ''@MMK_R_O_ARA'') \<and>
        kerning kp = [((''A'', ''@MMK_R_O_ARA''), Static (- 30))] \<and>
        predefined_exceptions kp = [((''EXC_T'', ''@MMK_R_O_ARA''), Static 2)] \<and>
        rtl_predefined_exceptions kp = [] \<and>
        glyph_group kp = [] \<and>
        rtl_glyph_group kp = [((''A'', ''@MMK_R_O_ARA''), Static (- 30))])"
  by code_simp

section \<open>A kerning without groups\<close>

lemma str_replace_no_prefix:
  "\<not> prefix (a # old) (c # cs) \<Longrightarrow>
     str_replace (a # old) new (c # cs) = c # str_replace (a # old) new cs"
  by (simp only: str_replace.simps if_False)

lemma str_replace_prefix:
  "prefix (a # old) (c # cs) \<Longrightarrow>
     str_replace (a # old) new (c # cs) = new @ str_replace (a # old) new (drop (length old) cs)"
  by (simp only: str_replace.simps if_True)

lemma takeWhile_str_replace:
  assumes "CHR ''@'' \<notin> set w"
      and "takeWhile (\<lambda>x. x \<noteq> CHR ''.'') (str_replace (a # old) (CHR ''@'' # new) s) = w"
  shows "takeWhile (\<lambda>x. x \<noteq> CHR ''.'') s = w"
  using assms
proof (induction s arbitrary: w)
  case Nil
  then show ?case by simp
next
  case (Cons c cs)
  show ?case
  proof (cases "prefix (a # old) (c # cs)")
    case True
    then have "str_replace (a # old) (CHR ''@'' # new) (c # cs) =
                 (CHR ''@'' # new) @ str_replace (a # old) (CHR ''@'' # new) (drop (length old) cs)"
      by (rule str_replace_prefix)
    then have "CHR ''@'' \<in> set w" using Cons.prems(2) by auto
    then show ?thesis using Cons.prems(1) by simp
  next
    case False
    then have r: "str_replace (a # old) (CHR ''@'' # new) (c # cs) =
                    c # str_replace (a # old) (CHR ''@'' # new) cs"
      by (rule str_replace_no_prefix)
    show ?thesis
    proof (cases "c = CHR ''.''")
      case True
      then show ?thesis using Cons.prems(2) r by simp
    next
      case False
      then obtain w' where w: "w = c # w'"
        and t: "takeWhile (\<lambda>x. x \<noteq> CHR ''.'') (str_replace (a # old) (CHR ''@'' # new) cs) = w'"
        using Cons.prems(2) r by auto
      have "CHR ''@'' \<notin> set w'" using Cons.prems(1) w by simp
      then have "takeWhile (\<lambda>x. x \<noteq> CHR ''.'') cs = w'" using t by (rule Cons.IH)
      then show ?thesis using w False by simp
    qed
  qed
qed

lemma isGroup_False_iff:
  "isGroup n = Inr False \<longleftrightarrow>
     (\<exists>c cs. n = c # cs \<and> c \<noteq> CHR ''@'' \<and> takeWhile (\<lambda>x. x \<noteq> CHR ''.'') n \<noteq> ''public'')"
  by (cases n) (auto simp: isGroup_def)

lemma remap_group_name_non_group:
  assumes "isGroup n = Inr False"
  shows "isGroup (remap_group_name n) = Inr False"
proof -
  from assms obtain c cs where n: "n = c # cs" and c: "c \<noteq> CHR ''@''"
    and t: "takeWhile (\<lambda>x. x \<noteq> CHR ''.'') n \<noteq> ''public''"
    by (auto simp: isGroup_False_iff)
  have np1: "\<not> prefix ''public.kern1.'' (c # cs)"
    using t n by (auto simp: prefix_def)
  have np2: "\<not> prefix ''public.kern2.'' (c # cs)"
    using t n by (auto simp: prefix_def)
  have shape1: "str_replace ''public.kern1.'' new n = c # str_replace ''public.kern1.'' new cs" for new
    unfolding n using np1 by (rule str_replace_no_prefix)
  have shape2: "str_replace ''public.kern2.'' new n = c # str_replace ''public.kern2.'' new cs" for new
    unfolding n using np2 by (rule str_replace_no_prefix)
  note shape = shape1 shape2
  have no_l: "\<not> prefix ''@MMK_L_'' (str_replace ''public.kern1.'' '''' n)"
    unfolding shape using c by simp
  have no_r: "\<not> prefix ''@MMK_R_'' (str_replace ''public.kern2.'' '''' n)"
    unfolding shape using c by simp
  have g1: "isGroup (str_replace ''public.kern1.'' ''@MMK_L_'' n) = Inr False"
  proof -
    have "takeWhile (\<lambda>x. x \<noteq> CHR ''.'') (str_replace ''public.kern1.'' ''@MMK_L_'' n) \<noteq> ''public''"
    proof
      assume a: "takeWhile (\<lambda>x. x \<noteq> CHR ''.'') (str_replace ''public.kern1.'' ''@MMK_L_'' n) = ''public''"
      have "CHR ''@'' \<notin> set ''public''" by simp
      from this a have "takeWhile (\<lambda>x. x \<noteq> CHR ''.'') n = ''public''"
        by (rule takeWhile_str_replace)
      then show False using t by simp
    qed
    then show ?thesis unfolding isGroup_False_iff shape using c by auto
  qed
  have g2: "isGroup (str_replace ''public.kern2.'' ''@MMK_R_'' n) = Inr False"
  proof -
    have "takeWhile (\<lambda>x. x \<noteq> CHR ''.'') (str_replace ''public.kern2.'' ''@MMK_R_'' n) \<noteq> ''public''"
    proof
      assume a: "takeWhile (\<lambda>x. x \<noteq> CHR ''.'') (str_replace ''public.kern2.'' ''@MMK_R_'' n) = ''public''"
      have "CHR ''@'' \<notin> set ''public''" by simp
      from this a have "takeWhile (\<lambda>x. x \<noteq> CHR ''.'') n = ''public''"
        by (rule takeWhile_str_replace)
      then show False using t by simp
    qed
    then show ?thesis unfolding isGroup_False_iff shape using c by auto
  qed
  show ?thesis
    using assms g1 g2 no_l no_r by (simp add: remap_group_name_def Let_def)
qed

lemma remap_kerning_as_fold:
  "remap_kerning kerning_d =
     fold (\<lambda>(k, v) d. AList.update (remap_group_name (fst k), remap_group_name (snd k)) v d)
       kerning_d []"
proof -
  have eq: "(\<lambda>((left, right), value) remapped.
             AList.update (remap_group_name left, remap_group_name right) value remapped) =
        (\<lambda>(k, v) d. AList.update (remap_group_name (fst k), remap_group_name (snd k)) v d)"
    by (auto simp: fun_eq_iff)
  show ?thesis unfolding remap_kerning_def by (subst eq) (rule refl)
qed

lemma remap_kerning_keys:
  "set (map fst (remap_kerning kerning_d)) =
     (\<lambda>k. (remap_group_name (fst k), remap_group_name (snd k))) ` set (map fst kerning_d)"
  unfolding remap_kerning_as_fold
  using keys_fold_update [of "\<lambda>k. (remap_group_name (fst k), remap_group_name (snd k))" kerning_d "[]"]
  by simp

lemma remap_kerning_distinct: "distinct (map fst (remap_kerning kerning_d))"
  unfolding remap_kerning_as_fold by (rule distinct_fold_update) simp

lemma filterE_isGroup_none:
  assumes "\<forall>x \<in> set xs. isGroup x = Inr False"
  shows "filterE isGroup xs = Inr []"
  using filterE_total [of xs isGroup "\<lambda>_. False"] assms by simp

lemma get_used_groups_none:
  assumes "\<forall>(left, right) \<in> set (map fst kerning_d). isGroup left = Inr False \<and> isGroup right = Inr False"
  shows "get_used_groups kerning_d = Inr []"
proof -
  have "\<forall>x \<in> set (concat (map (\<lambda>(left, right). [left, right]) (map fst kerning_d))).
          isGroup x = Inr False"
    using assms by auto
  then have "filterE isGroup (concat (map (\<lambda>(left, right). [left, right]) (map fst kerning_d))) = Inr []"
    by (rule filterE_isGroup_none)
  then show ?thesis by (simp add: get_used_groups_def sorted_set_def)
qed

lemma glyph_glyph_loop_attribute_error:
  assumes "grouped_left s = None" and "set ps \<subseteq> set (map fst (kerning s))" and "ps \<noteq> []"
  shows "foldE glyph_glyph_step ps s = Inl AttributeError"
proof -
  obtain p rest where ps: "ps = p # rest" using assms(3) by (cases ps) auto
  then have "p \<in> set (map fst (kerning s))" using assms(2) by auto
  from subscript_present [OF this] obtain v where "subscript (kerning s) p = Inr v" by auto
  then have "glyph_glyph_step p s = Inl AttributeError"
    using assms(1) by (simp add: glyph_glyph_step_def attribute_def Let_def)
  then show ?thesis by (simp add: ps)
qed

lemma findExceptions_attribute_error:
  assumes g: "grouped_left s0 = None"
      and ng: "\<forall>(left, right) \<in> set (map fst (kerning s0)).
                 isGroup left = Inr False \<and> isGroup right = Inr False"
      and d: "distinct (map fst (kerning s0))"
      and sv: "\<exists>pair \<in> set (map fst (kerning s0)). \<not> has_ignore_tag pair \<and> \<not> has_exception_tag pair"
  shows "findExceptions s0 = Inl AttributeError"
proof -
  from d obtain K P where kp:
    "foldE strip_step (rev (map fst (kerning s0))) s0 = Inr (s0\<lparr>kerning := K, predefined_exceptions := P\<rparr>)"
    "K = filter (\<lambda>(p, v). \<not> has_ignore_tag p \<and> \<not> has_exception_tag p) (kerning s0)"
    by (rule strip_all_keys)
  define s1 where "s1 = s0\<lparr>kerning := K, predefined_exceptions := P\<rparr>"
  have k1: "kerning s1 = K" and g1: "grouped_left s1 = None"
    using g by (simp_all add: s1_def)
  have strip: "foldE strip_step (rev (map fst (kerning s0))) s0 = Inr s1"
    using kp(1) by (simp add: s1_def)
  have sub: "set (map fst K) \<subseteq> set (map fst (kerning s0))"
    unfolding kp(2) by auto
  have ne: "map fst K \<noteq> []"
  proof -
    from sv obtain pair where "pair \<in> set (map fst (kerning s0))"
      "\<not> has_ignore_tag pair" "\<not> has_exception_tag pair" by blast
    then have "pair \<in> set (map fst K)" unfolding kp(2) by force
    then show ?thesis by auto
  qed
  have items: "\<forall>p \<in> set (map fst K). isGroup (fst p) = Inr False \<and> isGroup (snd p) = Inr False"
    using ng sub by fastforce
  have f1: "filterE is_glyph_2_glyph (map fst K) = Inr (map fst K)"
    using filterE_total [of "map fst K" is_glyph_2_glyph "\<lambda>_. True"] items
    by (simp add: is_glyph_2_glyph_def)
  have f2: "filterE is_glyph_2_group (map fst K) = Inr []"
    using filterE_total [of "map fst K" is_glyph_2_group "\<lambda>_. False"] items
    by (simp add: is_glyph_2_group_def)
  have f3: "filterE is_group_2_item (map fst K) = Inr []"
    using filterE_total [of "map fst K" is_group_2_item "\<lambda>_. False"] items
    by (simp add: is_group_2_item_def)
  define s4 where "s4 = s1\<lparr>exceptionPairs := [], RTLexceptionPairs := []\<rparr>"
  have s4: "grouped_left s4 = None" "kerning s4 = K" "exceptionPairs s4 = []" "RTLexceptionPairs s4 = []"
    using g1 k1 by (simp_all add: s4_def)
  have "set (sort (map fst K)) \<subseteq> set (map fst (kerning s4))" "sort (map fst K) \<noteq> []"
    using ne s4(2) by (simp_all flip: set_empty)
  with s4(1) have last: "foldE glyph_glyph_step (sort (map fst K)) s4 = Inl AttributeError"
    by (rule glyph_glyph_loop_attribute_error)
  have "findExceptions s0 =
          bindE (foldE exception_step (exceptionPairs s4) s4) (\<lambda>s5.
          bindE (foldE rtl_exception_step (RTLexceptionPairs s5) s5) (\<lambda>s6.
          foldE glyph_glyph_step (sort (map fst K)) s6))"
    unfolding findExceptions_def by (simp add: strip k1 f1 f2 f3 s4_def Let_def)
  also have "\<dots> = foldE glyph_glyph_step (sort (map fst K)) s4"
    by (simp add: s4(3,4))
  finally show ?thesis using last by simp
qed

text \<open>
  Claim C10, as amended. If sanitizing succeeds, no item of the sanitized kerning is a
  group name, and at least one pair of the remapped kerning survives the first loop of
  \<^verbatim>\<open>_findExceptions\<close> (its left item does not contain the ignore marker and neither
  item contains the exception marker), then \<^verbatim>\<open>KernProcessor\<close> raises AttributeError:
  \<^verbatim>\<open>grouped_left\<close> was never assigned, and the loop over the glyph to glyph pairs
  reads it.
\<close>

theorem KernProcessor_no_groups_attribute_error:
  assumes "sanitize_kerning groups_d kerning_d = Inr sanitized"
      and "\<forall>(left, right) \<in> set (map fst sanitized).
             isGroup left = Inr False \<and> isGroup right = Inr False"
      and "\<exists>pair \<in> set (map fst (remap_kerning sanitized)).
             \<not> str_contains tag_ignore (fst pair) \<and>
             \<not> str_contains tag_exception (fst pair) \<and>
             \<not> str_contains tag_exception (snd pair)"
  shows "KernProcessor groups_d kerning_d option_dissolve = Inl AttributeError"
proof -
  define ref_groups where
    "ref_groups = filter (\<lambda>(group, glyph_list). \<not> isKerningGroup group) groups_d"
  define s0 where "s0 = new_processor ref_groups [] (remap_kerning sanitized)"
  have used: "get_used_groups sanitized = Inr []"
    using assms(2) by (rule get_used_groups_none)
  have no_used: "used_groups_of groups_d [] = []"
    by (simp add: used_groups_of_def List.map_filter_simps)
  have k0: "kerning s0 = remap_kerning sanitized" and g0: "grouped_left s0 = None"
    by (simp_all add: s0_def new_processor_def)
  have d: "distinct (map fst (kerning s0))"
    unfolding k0 by (rule remap_kerning_distinct)
  have ng: "\<forall>(left, right) \<in> set (map fst (kerning s0)).
              isGroup left = Inr False \<and> isGroup right = Inr False"
    unfolding k0 remap_kerning_keys using assms(2) remap_group_name_non_group by fastforce
  have sv: "\<exists>pair \<in> set (map fst (kerning s0)). \<not> has_ignore_tag pair \<and> \<not> has_exception_tag pair"
    unfolding k0 has_ignore_tag_def has_exception_tag_def using assms(3) by blast
  have fe: "findExceptions s0 = Inl AttributeError"
    using g0 ng d sv by (rule findExceptions_attribute_error)
  show ?thesis
    unfolding KernProcessor_def
    by (simp add: assms(1) used no_used Let_def remap_groups_def
          ref_groups_def [symmetric] s0_def [symmetric] fe)
qed

text \<open>
  The theorem at the kerning \<^verbatim>\<open>(T, O): -10\<close> with no groups.
\<close>

theorem KernProcessor_no_groups_attribute_error_witness:
  "sanitize_kerning [] [((''T'', ''O''), Static (- 10))] = Inr [((''T'', ''O''), Static (- 10))] \<and>
   isGroup ''T'' = Inr False \<and> isGroup ''O'' = Inr False \<and>
   remap_kerning [((''T'', ''O''), Static (- 10))] = [((''T'', ''O''), Static (- 10))] \<and>
   \<not> str_contains tag_ignore ''T'' \<and> \<not> str_contains tag_exception ''T'' \<and>
   \<not> str_contains tag_exception ''O'' \<and>
   KernProcessor [] [((''T'', ''O''), Static (- 10))] False = Inl AttributeError"
proof -
  have s: "sanitize_kerning [] [((''T'', ''O''), Static (- 10))] = Inr [((''T'', ''O''), Static (- 10))]"
    by code_simp
  have r: "remap_kerning [((''T'', ''O''), Static (- 10))] = [((''T'', ''O''), Static (- 10))]"
    by code_simp
  have g: "\<forall>(left, right) \<in> set (map fst [((''T'', ''O''), Static (- 10))]).
             isGroup left = Inr False \<and> isGroup right = Inr False"
    by (simp add: isGroup_def)
  have t: "\<not> str_contains tag_ignore ''T''" "\<not> str_contains tag_exception ''T''"
          "\<not> str_contains tag_exception ''O''"
    by (simp_all add: tag_ignore_def tag_exception_def)
  have v: "\<exists>pair \<in> set (map fst (remap_kerning [((''T'', ''O''), Static (- 10))])).
             \<not> str_contains tag_ignore (fst pair) \<and>
             \<not> str_contains tag_exception (fst pair) \<and>
             \<not> str_contains tag_exception (snd pair)"
    unfolding r using t by simp
  show ?thesis
    using s r g t KernProcessor_no_groups_attribute_error [OF s g v, of False]
    by simp
qed

text \<open>
  Claim C10 as stated fails: the sanitized kerning \<^verbatim>\<open>(T.cxt, O): -10\<close> is non-empty
  and references no group, but its only pair carries the ignore marker and is deleted
  before the glyph to glyph loop, which then has nothing to read: the classification
  completes, with an empty kerning.
\<close>

theorem KernProcessor_only_ignored_pairs:
  "sanitize_kerning [] [((''T.cxt'', ''O''), Static (- 10))] = Inr [((''T.cxt'', ''O''), Static (- 10))] \<and>
   isGroup ''T.cxt'' = Inr False \<and> isGroup ''O'' = Inr False \<and>
   (case KernProcessor [] [((''T.cxt'', ''O''), Static (- 10))] False of
      Inl e \<Rightarrow> False
    | Inr kp \<Rightarrow> kerning kp = [] \<and> grouped_left kp = None \<and> pairs_processed kp = [])"
  by code_simp

section \<open>The member override of a glyph to group pair\<close>

lemma holds_override_add_exception_same:
  "holds_override xp v (add_glyph_glyph_exception r xp v s)"
  by (simp add: holds_override_def add_glyph_glyph_exception_def update_conv')

lemma holds_override_add_exception:
  assumes "holds_override xp v s" and "q = xp \<longrightarrow> w = v"
  shows "holds_override xp v (add_glyph_glyph_exception r q w s)"
  using assms by (auto simp: holds_override_def add_glyph_glyph_exception_def update_conv')

lemma holds_override_add_glyph_group_exception [simp]:
  "holds_override xp v (add_glyph_group_exception r p w s) = holds_override xp v s"
  by (simp add: holds_override_def add_glyph_group_exception_def)

lemma holds_override_add_glyph_group [simp]:
  "holds_override xp v (add_glyph_group r p w s) = holds_override xp v s"
  by (simp add: holds_override_def add_glyph_group_def)

lemma holds_override_add_group_glyph_exception [simp]:
  "holds_override xp v (add_group_glyph_exception r p w s) = holds_override xp v s"
  by (simp add: holds_override_def add_group_glyph_exception_def)

lemma holds_override_add_group_group [simp]:
  "holds_override xp v (fst (add_group_group r p w l g (s, e, re))) = holds_override xp v s"
  by (simp add: holds_override_def add_group_group_def)

lemma holds_override_add_glyph_glyph:
  assumes "holds_override xp v s" and "q = xp \<longrightarrow> w = v"
  shows "holds_override xp v (add_glyph_glyph gl gr r q w s)"
proof -
  have a: "holds_override xp v (add_glyph_glyph_exception r q w s)"
    using assms by (rule holds_override_add_exception)
  have b: "holds_override xp v (s\<lparr>rtl_glyph_glyph := X\<rparr>)"
          "holds_override xp v (s\<lparr>glyph_glyph := X\<rparr>)" for X
    using assms(1) by (simp_all add: holds_override_def)
  have c: "holds_override xp v (t\<lparr>pairs_processed := Y\<rparr>) = holds_override xp v t" for t Y
    by (simp add: holds_override_def)
  show ?thesis
    unfolding add_glyph_glyph_def Let_def c using a b assms(1) by simp
qed

lemma holds_override_add_glyph_glyph_grouped:
  assumes "fst xp \<in> set gl"
  shows "holds_override xp v (add_glyph_glyph gl gr r xp v s)"
proof -
  have c: "holds_override xp v (t\<lparr>pairs_processed := Y\<rparr>) = holds_override xp v t" for t Y
    by (simp add: holds_override_def)
  show ?thesis
    unfolding add_glyph_glyph_def Let_def c using assms holds_override_add_exception_same by simp
qed

lemma holds_override_markers [simp]:
  "holds_override xp v (s\<lparr>exceptionPairs := A, RTLexceptionPairs := B\<rparr>) = holds_override xp v s"
  by (simp add: holds_override_def)

lemma foldE_establish:
  assumes "foldE f xs s = Inr s'" and "x \<in> set xs" and "I s"
      and pres_I: "\<And>y t t'. I t \<Longrightarrow> f y t = Inr t' \<Longrightarrow> I t'"
      and est: "\<And>t t'. I t \<Longrightarrow> f x t = Inr t' \<Longrightarrow> Q t'"
      and pres_Q: "\<And>y t t'. I t \<Longrightarrow> Q t \<Longrightarrow> f y t = Inr t' \<Longrightarrow> Q t'"
  shows "Q s'"
  using assms(1-3)
proof (induction xs arbitrary: s)
  case Nil
  then show ?case by simp
next
  case (Cons y ys)
  from Cons.prems(1) obtain t where t: "f y s = Inr t" "foldE f ys t = Inr s'"
    by (auto simp: bindE_eq_Inr)
  have It: "I t" using Cons.prems(3) t(1) by (rule pres_I)
  show ?case
  proof (cases "y = x")
    case True
    then have "Q t" using Cons.prems(3) t(1) est by blast
    with It have "I t \<and> Q t" by simp
    with t(2) have "I s' \<and> Q s'"
    proof (rule foldE_invariant [where P = "\<lambda>u. I u \<and> Q u"])
      fix z u u'
      assume "I u \<and> Q u" "f z u = Inr u'"
      then show "I u' \<and> Q u'" using pres_I pres_Q by blast
    qed
    then show ?thesis by simp
  next
    case False
    then have "x \<in> set ys" using Cons.prems(2) by simp
    with t(2) show ?thesis using It by (rule Cons.IH)
  qed
qed

lemma foldE_preserve:
  assumes "foldE f xs s = Inr s'" and "I s" and "Q s"
      and pres_I: "\<And>y t t'. I t \<Longrightarrow> f y t = Inr t' \<Longrightarrow> I t'"
      and pres_Q: "\<And>y t t'. I t \<Longrightarrow> Q t \<Longrightarrow> f y t = Inr t' \<Longrightarrow> Q t'"
  shows "Q s'"
proof -
  have "I s \<and> Q s" using assms(2,3) by simp
  with assms(1) have "I s' \<and> Q s'"
  proof (rule foldE_invariant [where P = "\<lambda>u. I u \<and> Q u"])
    fix z u u'
    assume "I u \<and> Q u" "f z u = Inr u'"
    then show "I u' \<and> Q u'" using pres_I pres_Q by blast
  qed
  then show ?thesis by simp
qed

lemma member_step_preserves:
  assumes "map_of (kerning s) xp = Some v" and "holds_override xp v s"
      and "member_step g2g r g m (val, s) = Inr (val', s')"
  shows "holds_override xp v s'"
proof -
  have "case member_step g2g r g m (val, s) of Inl e \<Rightarrow> True
        | Inr t \<Rightarrow> holds_override xp v (snd t)"
    using assms(1,2)
    by (auto simp: member_step_def Let_def bindE_def subscript_eq_Inr
             split: sum.splits intro!: holds_override_add_exception)
  then show ?thesis using assms(3) by simp
qed

lemma member_step_establishes:
  assumes "map_of (kerning s) (g, m) = Some v" and "(g, m) \<in> set g2g"
      and "member_step g2g r g m (val, s) = Inr (val', s')"
  shows "holds_override (g, m) v s'"
proof -
  have "case member_step g2g r g m (val, s) of Inl e \<Rightarrow> True
        | Inr t \<Rightarrow> holds_override (g, m) v (snd t)"
    using assms(1,2)
    by (auto simp: member_step_def Let_def bindE_def subscript_eq_Inr
             split: sum.splits intro!: holds_override_add_exception_same)
  then show ?thesis using assms(3) by simp
qed

lemma kerning_of_context: "context_of t = context_of s \<Longrightarrow> kerning t = kerning s"
  by (simp add: context_of_def)

lemma member_loop_preserves:
  assumes "map_of (kerning s) xp = Some v" and "holds_override xp v s"
      and "foldE (member_step g2g r g) ms (val, s) = Inr (val', s')"
  shows "holds_override xp v s'"
proof -
  have "holds_override xp v (snd (val', s'))"
  proof (rule foldE_preserve [OF assms(3), where I = "\<lambda>t. context_of (snd t) = context_of s"
                                and Q = "\<lambda>t. holds_override xp v (snd t)"])
    show "context_of (snd (val, s)) = context_of s" by simp
    show "holds_override xp v (snd (val, s))" using assms(2) by simp
  next
    fix y t t'
    assume "context_of (snd t) = context_of s" "member_step g2g r g y t = Inr t'"
    then show "context_of (snd t') = context_of s"
      using member_step_context [of g2g r g y "fst t" "snd t" "fst t'" "snd t'"] by simp
  next
    fix y t t'
    assume a: "context_of (snd t) = context_of s" "holds_override xp v (snd t)"
              "member_step g2g r g y t = Inr t'"
    have "map_of (kerning (snd t)) xp = Some v"
      using kerning_of_context [OF a(1)] assms(1) by simp
    then show "holds_override xp v (snd t')"
      using a(2,3) member_step_preserves [of "snd t" xp v g2g r g y "fst t" "fst t'" "snd t'"]
      by simp
  qed
  then show ?thesis by simp
qed

lemma member_loop_establishes:
  assumes "map_of (kerning s) (g, m) = Some v" and "(g, m) \<in> set g2g" and "m \<in> set ms"
      and "foldE (member_step g2g r g) ms (val, s) = Inr (val', s')"
  shows "holds_override (g, m) v s'"
proof -
  have "holds_override (g, m) v (snd (val', s'))"
  proof (rule foldE_establish [OF assms(4,3), where I = "\<lambda>t. context_of (snd t) = context_of s"
                                 and Q = "\<lambda>t. holds_override (g, m) v (snd t)"])
    show "context_of (snd (val, s)) = context_of s" by simp
  next
    fix y t t'
    assume "context_of (snd t) = context_of s" "member_step g2g r g y t = Inr t'"
    then show "context_of (snd t') = context_of s"
      using member_step_context [of g2g r g y "fst t" "snd t" "fst t'" "snd t'"] by simp
  next
    fix t t'
    assume a: "context_of (snd t) = context_of s" "member_step g2g r g m t = Inr t'"
    have "map_of (kerning (snd t)) (g, m) = Some v"
      using kerning_of_context [OF a(1)] assms(1) by simp
    then show "holds_override (g, m) v (snd t')"
      using a(2) assms(2)
        member_step_establishes [of "snd t" g m v g2g r "fst t" "fst t'" "snd t'"]
      by simp
  next
    fix y t t'
    assume a: "context_of (snd t) = context_of s" "holds_override (g, m) v (snd t)"
              "member_step g2g r g y t = Inr t'"
    have "map_of (kerning (snd t)) (g, m) = Some v"
      using kerning_of_context [OF a(1)] assms(1) by simp
    then show "holds_override (g, m) v (snd t')"
      using a(2,3) member_step_preserves [of "snd t" "(g, m)" v g2g r g y "fst t" "fst t'" "snd t'"]
      by simp
  qed
  then show ?thesis by simp
qed

lemma fold_pair_result:
  "foldE f xs s = Inr t \<Longrightarrow> \<exists>a b. t = (a, b)"
  by (cases t) simp

lemma glyph_group_step_preserves:
  assumes "map_of (kerning s) xp = Some v" and "holds_override xp v s"
      and "glyph_group_step g2g p s = Inr s'"
  shows "holds_override xp v s'"
proof -
  have "case glyph_group_step g2g p s of Inl e \<Rightarrow> True
        | Inr t \<Rightarrow> holds_override xp v t"
    using assms(1,2)
    by (cases p)
       (auto simp: glyph_group_step_def Let_def bindE_def
             split: sum.splits if_splits dest: member_loop_preserves)
  then show ?thesis using assms(3) by simp
qed

lemma glyph_group_step_establishes:
  assumes "map_of (kerning s) (g, m) = Some v" and "(g, m) \<in> set g2g"
      and "map_of (groups s) G = Some groupList" and "m \<in> set groupList"
      and "grouped_left s = Some gl" and "g \<notin> set gl"
      and "glyph_group_step g2g (g, G) s = Inr s'"
  shows "holds_override (g, m) v s'"
proof -
  have "case glyph_group_step g2g (g, G) s of Inl e \<Rightarrow> True
        | Inr t \<Rightarrow> holds_override (g, m) v t"
    using assms(1-6)
    by (auto simp: glyph_group_step_def Let_def bindE_def subscript_def attribute_def
             split: sum.splits if_splits dest: member_loop_establishes)
  then show ?thesis using assms(7) by simp
qed

lemma glyph_group_step_untouched:
  assumes "grouped_left s = Some gl" and "g \<in> set gl"
      and "glyph_group_step g2g (g, G) s = Inr s'"
  shows "glyph_glyph_exceptions s' = glyph_glyph_exceptions s \<and>
         rtl_glyph_glyph_exceptions s' = rtl_glyph_glyph_exceptions s"
proof -
  have "case glyph_group_step g2g (g, G) s of Inl e \<Rightarrow> True
        | Inr t \<Rightarrow> glyph_glyph_exceptions t = glyph_glyph_exceptions s \<and>
                  rtl_glyph_glyph_exceptions t = rtl_glyph_glyph_exceptions s"
    using assms(1,2)
    by (auto simp: glyph_group_step_def Let_def bindE_def attribute_def
                   add_glyph_group_exception_def
             split: sum.splits if_splits)
  then show ?thesis using assms(3) by simp
qed

lemma add_group_group_override_dest:
  "add_group_group r p w l g (s, e, re) = (s', e', re') \<Longrightarrow>
     holds_override xp v s' = holds_override xp v s"
  using holds_override_add_group_group [of xp v r p w l g s e re] by simp

lemma group_item_step_preserves:
  assumes "holds_override xp v s"
      and "group_item_step p (s, e, re) = Inr (s', e', re')"
  shows "holds_override xp v s'"
proof -
  have "case group_item_step p (s, e, re) of Inl e \<Rightarrow> True
        | Inr t \<Rightarrow> holds_override xp v (fst t)"
    using assms(1)
    by (cases p)
       (auto simp: group_item_step_def Let_def bindE_def
             split: sum.splits if_splits option.splits
             dest: add_group_group_override_dest)
  then show ?thesis using assms(2) by simp
qed

lemma exception_step_preserves:
  assumes "map_of (kerning s) xp = Some v" and "holds_override xp v s"
      and "exception_step p s = Inr s'"
  shows "holds_override xp v s'"
proof -
  have "case exception_step p s of Inl e \<Rightarrow> True | Inr t \<Rightarrow> holds_override xp v t"
    using assms(1,2)
    by (auto simp: exception_step_def bindE_def subscript_eq_Inr
             split: sum.splits intro!: holds_override_add_exception)
  then show ?thesis using assms(3) by simp
qed

lemma rtl_exception_step_preserves:
  assumes "map_of (kerning s) xp = Some v" and "holds_override xp v s"
      and "rtl_exception_step p s = Inr s'"
  shows "holds_override xp v s'"
proof -
  have "case rtl_exception_step p s of Inl e \<Rightarrow> True | Inr t \<Rightarrow> holds_override xp v t"
    using assms(1,2)
    by (auto simp: rtl_exception_step_def bindE_def subscript_eq_Inr
             split: sum.splits intro!: holds_override_add_exception)
  then show ?thesis using assms(3) by simp
qed

lemma glyph_glyph_step_preserves:
  assumes "map_of (kerning s) xp = Some v" and "holds_override xp v s"
      and "glyph_glyph_step p s = Inr s'"
  shows "holds_override xp v s'"
proof -
  have "case glyph_glyph_step p s of Inl e \<Rightarrow> True | Inr t \<Rightarrow> holds_override xp v t"
    using assms(1,2)
    by (auto simp: glyph_glyph_step_def Let_def bindE_def subscript_eq_Inr
             split: sum.splits intro!: holds_override_add_glyph_glyph)
  then show ?thesis using assms(3) by simp
qed

lemma glyph_glyph_step_establishes:
  assumes "map_of (kerning s) xp = Some v" and "grouped_left s = Some gl" and "fst xp \<in> set gl"
      and "glyph_glyph_step xp s = Inr s'"
  shows "holds_override xp v s'"
proof -
  have "case glyph_glyph_step xp s of Inl e \<Rightarrow> True | Inr t \<Rightarrow> holds_override xp v t"
    using assms(1-3)
    by (auto simp: glyph_glyph_step_def Let_def bindE_def subscript_def attribute_def
             split: sum.splits intro!: holds_override_add_glyph_glyph_grouped)
  then show ?thesis using assms(4) by simp
qed

lemma filterE_result:
  "filterE t xs = Inr ys \<Longrightarrow> ys = filter (\<lambda>x. t x = Inr True) xs"
proof (induction xs arbitrary: ys)
  case Nil
  then show ?case by simp
next
  case (Cons x xs)
  from Cons.prems obtain b zs where b: "t x = Inr b" and zs: "filterE t xs = Inr zs"
    and ys: "ys = (if b then x # zs else zs)"
    by (auto simp: bindE_eq_Inr)
  have "zs = filter (\<lambda>x. t x = Inr True) xs" using zs by (rule Cons.IH)
  then show ?case using b ys by simp
qed

lemma map_of_filter_member:
  assumes "distinct (map fst xs)" and "(k, v) \<in> set xs" and "P (k, v)"
  shows "map_of (filter P xs) k = Some v"
proof -
  have "distinct (map fst (filter P xs))" using assms(1) by (rule distinct_map_filter)
  moreover have "(k, v) \<in> set (filter P xs)" using assms(2,3) by simp
  ultimately show ?thesis by simp
qed

text \<open>
  Claim C5, as amended. For every glyph to group pair that survives the first loop and
  every member of its group, if the exact pair of the glyph and the member is among the
  glyph to glyph pairs, the classification ends with that exact pair, with its own
  value, in the glyph to glyph exceptions bucket or its right-to-left sibling. The
  member check is not independent of the membership branch: for a glyph that is grouped
  on the left, the step for the glyph to group pair leaves both buckets as they were,
  and it is the last loop, over the glyph to glyph pairs, that stores the exact pair.
\<close>

theorem findExceptions_member_override:
  assumes "findExceptions s0 = Inr s'"
      and "distinct (map fst (kerning s0))"
      and "grouped_left s0 = Some the_grouped_left"
      and "(glyph, group_name) \<in> set (map fst (kerning s0))"
      and "isGroup glyph = Inr False" and "isGroup group_name = Inr True"
      and "map_of (groups s0) group_name = Some groupList" and "member \<in> set groupList"
      and "isGroup member = Inr False"
      and "((glyph, member), value) \<in> set (kerning s0)"
      and "\<not> str_contains tag_ignore glyph" and "\<not> str_contains tag_exception glyph"
      and "\<not> str_contains tag_exception group_name" and "\<not> str_contains tag_exception member"
  shows "(map_of (glyph_glyph_exceptions s') (glyph, member) = Some value \<or>
          map_of (rtl_glyph_glyph_exceptions s') (glyph, member) = Some value) \<and>
         (\<forall>glyph_2_glyph s t.
            glyph \<in> set the_grouped_left \<and> grouped_left s = Some the_grouped_left \<and>
            glyph_group_step glyph_2_glyph (glyph, group_name) s = Inr t \<longrightarrow>
            glyph_glyph_exceptions t = glyph_glyph_exceptions s \<and>
            rtl_glyph_glyph_exceptions t = rtl_glyph_glyph_exceptions s)"
proof -
  let ?xp = "(glyph, member)"
  let ?gp = "(glyph, group_name)"
  from assms(1) obtain s1 gg gc ci s2 s3 e re s5 s6 where st:
    "foldE strip_step (rev (map fst (kerning s0))) s0 = Inr s1"
    "filterE is_glyph_2_glyph (map fst (kerning s1)) = Inr gg"
    "filterE is_glyph_2_group (map fst (kerning s1)) = Inr gc"
    "filterE is_group_2_item (map fst (kerning s1)) = Inr ci"
    "foldE (glyph_group_step (sort gg)) (sort gc) s1 = Inr s2"
    "foldE group_item_step (sort ci) (s2, [], []) = Inr (s3, e, re)"
    "foldE exception_step (filter (\<lambda>p. p \<in> set e) (sort gg))
       (s3\<lparr>exceptionPairs := filter (\<lambda>p. p \<in> set e) (sort gg),
           RTLexceptionPairs := filter (\<lambda>p. p \<in> set re) (sort gg)\<rparr>) = Inr s5"
    "foldE rtl_exception_step (RTLexceptionPairs s5) s5 = Inr s6"
    "foldE glyph_glyph_step (sort gg) s6 = Inr s'"
    by (rule findExceptions_stages)
  define s4 where "s4 = s3\<lparr>exceptionPairs := filter (\<lambda>p. p \<in> set e) (sort gg),
           RTLexceptionPairs := filter (\<lambda>p. p \<in> set re) (sort gg)\<rparr>"
  from assms(2) obtain K P where kp:
    "foldE strip_step (rev (map fst (kerning s0))) s0 = Inr (s0\<lparr>kerning := K, predefined_exceptions := P\<rparr>)"
    "K = filter (\<lambda>(p, v). \<not> has_ignore_tag p \<and> \<not> has_exception_tag p) (kerning s0)"
    by (rule strip_all_keys)
  have s1: "s1 = s0\<lparr>kerning := K, predefined_exceptions := P\<rparr>" using st(1) kp(1) by simp
  have k1: "kerning s1 = K" and g1: "groups s1 = groups s0"
    and l1: "grouped_left s1 = Some the_grouped_left"
    using assms(3) by (simp_all add: s1)
  have ctx: "kerning t = K \<and> groups t = groups s0 \<and> grouped_left t = Some the_grouped_left"
    if "context_of t = context_of s1" for t
    using that k1 g1 l1 by (simp add: context_of_def)
  have surv_xp: "\<not> has_ignore_tag ?xp \<and> \<not> has_exception_tag ?xp"
    using assms(11,12,14) by (simp add: has_ignore_tag_def has_exception_tag_def)
  have surv_gp: "\<not> has_ignore_tag ?gp \<and> \<not> has_exception_tag ?gp"
    using assms(11,12,13) by (simp add: has_ignore_tag_def has_exception_tag_def)
  have xv: "map_of K ?xp = Some value"
    unfolding kp(2) using assms(2,10) surv_xp by (intro map_of_filter_member) simp_all
  have xk: "?xp \<in> set (map fst K)"
  proof -
    have "(?xp, value) \<in> set K" using xv by (rule map_of_SomeD)
    then show ?thesis by force
  qed
  have gk: "?gp \<in> set (map fst K)"
    unfolding kp(2) using assms(4) surv_gp by (auto simp: image_iff)
  have "gg = filter (\<lambda>x. is_glyph_2_glyph x = Inr True) (map fst K)"
    using st(2) unfolding k1 by (rule filterE_result)
  then have xgg: "?xp \<in> set (sort gg)"
    using xk assms(5,9) by (simp add: is_glyph_2_glyph_def)
  have "gc = filter (\<lambda>x. is_glyph_2_group x = Inr True) (map fst K)"
    using st(3) unfolding k1 by (rule filterE_result)
  then have ggc: "?gp \<in> set (sort gc)"
    using gk assms(5,6) by (simp add: is_glyph_2_group_def)
  have c2: "context_of s2 = context_of s1"
    using st(5) glyph_group_step_context by (rule foldE_context)
  have c3: "context_of s3 = context_of s1"
    using group_item_loop_context [OF st(6)] c2 by simp
  have c4: "context_of s4 = context_of s1"
    using c3 by (simp add: s4_def context_of_def)
  have c5: "context_of s5 = context_of s1"
    using foldE_context [OF st(7) exception_step_context] c4 by (simp add: s4_def)
  have c6: "context_of s6 = context_of s1"
    using foldE_context [OF st(8) rtl_exception_step_context] c5 by simp
  have final_preserves: "holds_override ?xp value s'" if "holds_override ?xp value s6"
    using st(9) c6 that
  proof (rule foldE_preserve [where I = "\<lambda>t. context_of t = context_of s1"])
    fix y t t' assume "context_of t = context_of s1" "glyph_glyph_step y t = Inr t'"
    then show "context_of t' = context_of s1" using glyph_glyph_step_context by fastforce
  next
    fix y t t'
    assume a: "context_of t = context_of s1" "holds_override ?xp value t"
              "glyph_glyph_step y t = Inr t'"
    have "map_of (kerning t) ?xp = Some value" using ctx [OF a(1)] xv by simp
    then show "holds_override ?xp value t'" using a(2,3) by (rule glyph_glyph_step_preserves)
  qed
  have main: "holds_override ?xp value s'"
  proof (cases "glyph \<in> set the_grouped_left")
    case True
    show ?thesis
      using st(9) xgg c6
    proof (rule foldE_establish [where I = "\<lambda>t. context_of t = context_of s1"])
      fix y t t' assume "context_of t = context_of s1" "glyph_glyph_step y t = Inr t'"
      then show "context_of t' = context_of s1" using glyph_glyph_step_context by fastforce
    next
      fix t t'
      assume a: "context_of t = context_of s1" "glyph_glyph_step ?xp t = Inr t'"
      have "map_of (kerning t) ?xp = Some value" "grouped_left t = Some the_grouped_left"
        using ctx [OF a(1)] xv by simp_all
      moreover have "fst ?xp \<in> set the_grouped_left" using True by simp
      ultimately show "holds_override ?xp value t'"
        using a(2) by (rule glyph_glyph_step_establishes)
    next
      fix y t t'
      assume a: "context_of t = context_of s1" "holds_override ?xp value t"
                "glyph_glyph_step y t = Inr t'"
      have "map_of (kerning t) ?xp = Some value" using ctx [OF a(1)] xv by simp
      then show "holds_override ?xp value t'" using a(2,3) by (rule glyph_glyph_step_preserves)
    qed
  next
    case False
    have h2: "holds_override ?xp value s2"
      using st(5) ggc
    proof (rule foldE_establish [where I = "\<lambda>t. context_of t = context_of s1"])
      show "context_of s1 = context_of s1" by simp
    next
      fix y t t' assume "context_of t = context_of s1" "glyph_group_step (sort gg) y t = Inr t'"
      then show "context_of t' = context_of s1" using glyph_group_step_context by fastforce
    next
      fix t t'
      assume a: "context_of t = context_of s1" "glyph_group_step (sort gg) ?gp t = Inr t'"
      have "map_of (kerning t) ?xp = Some value" "map_of (groups t) group_name = Some groupList"
           "grouped_left t = Some the_grouped_left"
        using ctx [OF a(1)] xv assms(7) by simp_all
      then show "holds_override ?xp value t'"
        using xgg assms(8) False a(2)
          glyph_group_step_establishes [of t glyph member "value" "sort gg" group_name groupList
            the_grouped_left t']
        by simp
    next
      fix y t t'
      assume a: "context_of t = context_of s1" "holds_override ?xp value t"
                "glyph_group_step (sort gg) y t = Inr t'"
      have "map_of (kerning t) ?xp = Some value" using ctx [OF a(1)] xv by simp
      then show "holds_override ?xp value t'" using a(2,3) by (rule glyph_group_step_preserves)
    qed
    have "holds_override ?xp value (fst (s3, e, re))"
      using st(6)
    proof (rule foldE_preserve [where I = "\<lambda>t. True"])
      show "holds_override ?xp value (fst (s2, [], []))" using h2 by simp
    next
      fix y t t'
      assume a: "holds_override ?xp value (fst t)" "group_item_step y t = Inr t'"
      obtain t1 t2 t3 where t: "t = (t1, t2, t3)" by (cases t)
      obtain u1 u2 u3 where u: "t' = (u1, u2, u3)" by (cases t')
      show "holds_override ?xp value (fst t')"
        using a group_item_step_preserves [of ?xp "value" t1 y t2 t3 u1 u2 u3] by (simp add: t u)
    qed simp_all
    then have h4: "holds_override ?xp value s4" by (simp add: s4_def)
    have h5: "holds_override ?xp value s5"
      using st(7) c4 h4 unfolding s4_def [symmetric]
    proof (rule foldE_preserve [where I = "\<lambda>t. context_of t = context_of s1"])
      fix y t t' assume "context_of t = context_of s1" "exception_step y t = Inr t'"
      then show "context_of t' = context_of s1" using exception_step_context by fastforce
    next
      fix y t t'
      assume a: "context_of t = context_of s1" "holds_override ?xp value t"
                "exception_step y t = Inr t'"
      have "map_of (kerning t) ?xp = Some value" using ctx [OF a(1)] xv by simp
      then show "holds_override ?xp value t'" using a(2,3) by (rule exception_step_preserves)
    qed
    have h6: "holds_override ?xp value s6"
      using st(8) c5 h5
    proof (rule foldE_preserve [where I = "\<lambda>t. context_of t = context_of s1"])
      fix y t t' assume "context_of t = context_of s1" "rtl_exception_step y t = Inr t'"
      then show "context_of t' = context_of s1" using rtl_exception_step_context by fastforce
    next
      fix y t t'
      assume a: "context_of t = context_of s1" "holds_override ?xp value t"
                "rtl_exception_step y t = Inr t'"
      have "map_of (kerning t) ?xp = Some value" using ctx [OF a(1)] xv by simp
      then show "holds_override ?xp value t'" using a(2,3) by (rule rtl_exception_step_preserves)
    qed
    then show ?thesis by (rule final_preserves)
  qed
  have untouched: "\<forall>glyph_2_glyph s t.
            glyph \<in> set the_grouped_left \<and> grouped_left s = Some the_grouped_left \<and>
            glyph_group_step glyph_2_glyph (glyph, group_name) s = Inr t \<longrightarrow>
            glyph_glyph_exceptions t = glyph_glyph_exceptions s \<and>
            rtl_glyph_glyph_exceptions t = rtl_glyph_glyph_exceptions s"
    using glyph_group_step_untouched by blast
  show ?thesis using main untouched unfolding holds_override_def by blast
qed

text \<open>
  The theorem at the pairs \<^verbatim>\<open>(T, @MMK_R_O)\<close> and \<^verbatim>\<open>(T, O)\<close> of the first processor.
\<close>

theorem findExceptions_member_override_witness:
  "distinct (map fst (kerning override_processor)) \<and>
   grouped_left override_processor = Some [] \<and>
   map_of (groups override_processor) ''@MMK_R_O'' = Some [''O''] \<and>
   ((''T'', ''O''), Static (- 10)) \<in> set (kerning override_processor) \<and>
   (case findExceptions override_processor of
      Inl e \<Rightarrow> False
    | Inr s' \<Rightarrow>
        map_of (glyph_glyph_exceptions s') (''T'', ''O'') = Some (Static (- 10)) \<or>
        map_of (rtl_glyph_glyph_exceptions s') (''T'', ''O'') = Some (Static (- 10)))"
proof -
  have d: "distinct (map fst (kerning override_processor))"
    by (simp add: override_processor_def new_processor_def)
  have l: "grouped_left override_processor = Some []"
    by (simp add: override_processor_def new_processor_def)
  have p: "(''T'', ''@MMK_R_O'') \<in> set (map fst (kerning override_processor))"
    by (simp add: override_processor_def new_processor_def)
  have g: "isGroup ''T'' = Inr False" "isGroup ''@MMK_R_O'' = Inr True" "isGroup ''O'' = Inr False"
    by (simp_all add: isGroup_def)
  have m: "map_of (groups override_processor) ''@MMK_R_O'' = Some [''O'']" "''O'' \<in> set [''O'']"
    by (simp_all add: override_processor_def new_processor_def)
  have x: "((''T'', ''O''), Static (- 10)) \<in> set (kerning override_processor)"
    by (simp add: override_processor_def new_processor_def)
  have t: "\<not> str_contains tag_ignore ''T''" "\<not> str_contains tag_exception ''T''"
          "\<not> str_contains tag_exception ''@MMK_R_O''" "\<not> str_contains tag_exception ''O''"
    by (simp_all add: tag_ignore_def tag_exception_def)
  have "case findExceptions override_processor of Inl e \<Rightarrow> False | Inr s' \<Rightarrow> True"
    by code_simp
  then obtain s' where r: "findExceptions override_processor = Inr s'"
    by (cases "findExceptions override_processor") simp_all
  show ?thesis
    using d l m(1) x
      findExceptions_member_override [OF r d l p g(1,2) m g(3) x t]
    by (simp add: r)
qed

text \<open>
  Claim C5 as stated fails: in the second processor \<^verbatim>\<open>T\<close> is grouped on the left, so
  the step for \<^verbatim>\<open>(T, @MMK_R_O_ARA)\<close> takes the membership branch and does not run the
  member check: after it \<^verbatim>\<open>(T, O)\<close> is in neither bucket. The pair is right-to-left, so
  the check would store \<^verbatim>\<open>(T, O)\<close> in the right-to-left bucket; at the end of
  \<^verbatim>\<open>KernProcessor\<close> that bucket is still empty, and \<^verbatim>\<open>(T, O)\<close> is in the
  left-to-right bucket, stored by the last loop.
\<close>

theorem glyph_group_step_skips_member_check:
  "grouped_left grouped_glyph_processor = Some [''T'', ''Tbar''] \<and>
   map_of (groups grouped_glyph_processor) ''@MMK_R_O_ARA'' = Some [''O''] \<and>
   map_of (kerning grouped_glyph_processor) (''T'', ''O'') = Some (Static (- 10)) \<and>
   isRTL [] (''T'', ''@MMK_R_O_ARA'') \<and>
   (case glyph_group_step [(''T'', ''O'')] (''T'', ''@MMK_R_O_ARA'') grouped_glyph_processor of
      Inl e \<Rightarrow> False
    | Inr t \<Rightarrow>
        rtl_glyph_group_exceptions t = [((''T'', ''@MMK_R_O_ARA''), Static (- 5))] \<and>
        glyph_glyph_exceptions t = [] \<and> rtl_glyph_glyph_exceptions t = []) \<and>
   (case KernProcessor [(''@MMK_L_T'', [''T'', ''Tbar'']), (''@MMK_R_O_ARA'', [''O''])]
           [((''@MMK_L_T'', ''x''), Static 3), ((''T'', ''@MMK_R_O_ARA''), Static (- 5)),
            ((''T'', ''O''), Static (- 10))] False of
      Inl e \<Rightarrow> False
    | Inr kp \<Rightarrow>
        grouped_left kp = Some [''T'', ''Tbar''] \<and>
        glyph_glyph_exceptions kp = [((''T'', ''O''), Static (- 10))] \<and>
        rtl_glyph_glyph_exceptions kp = [])"
  by code_simp

end
